theory Spec2Isabelle
  imports Main "HOL-Library.Product_Lexorder"
begin

section \<open>Python and numpy primitives\<close>

text \<open>
  The exceptions the modelled functions can raise.  A computation that may raise has the
  type \<open>error + 'a\<close>, with \<open>Inl\<close> for the exception.
\<close>

datatype error = IndexError | AssertionError | KeyError | ValueError | RuntimeError | Unmodelled

definition bindE :: "error + 'a \<Rightarrow> ('a \<Rightarrow> error + 'b) \<Rightarrow> error + 'b" where
  "bindE x f = (case x of Inl e \<Rightarrow> Inl e | Inr v \<Rightarrow> f v)"

text \<open>
  Indexing a Python list or one axis of a numpy array of length \<open>n\<close> with an integer:
  an index in \<open>[-n, 0)\<close> counts from the end, anything outside \<open>[-n, n)\<close> raises
  IndexError.
\<close>

definition np_idx :: "nat \<Rightarrow> int \<Rightarrow> error + nat" where
  "np_idx n i =
     (if 0 \<le> i \<and> i < int n then Inr (nat i)
      else if - int n \<le> i \<and> i < 0 then Inr (nat (int n + i))
      else Inl IndexError)"

definition py_get :: "'a list \<Rightarrow> int \<Rightarrow> error + 'a" where
  "py_get xs i = bindE (np_idx (length xs) i) (\<lambda>j. Inr (xs ! j))"

definition py_set :: "'a list \<Rightarrow> int \<Rightarrow> 'a \<Rightarrow> error + 'a list" where
  "py_set xs i v = bindE (np_idx (length xs) i) (\<lambda>j. Inr (xs[j := v]))"

text \<open>\<open>a[i, j]\<close> on a two-dimensional array stored as a list of rows.\<close>

definition np_get2 :: "'a list list \<Rightarrow> int \<Rightarrow> int \<Rightarrow> error + 'a" where
  "np_get2 a i j = bindE (py_get a i) (\<lambda>row. py_get row j)"

text \<open>Running a fallible function over a list, stopping at the first exception.\<close>

fun mapE :: "('a \<Rightarrow> error + 'b) \<Rightarrow> 'a list \<Rightarrow> error + 'b list" where
  "mapE f [] = Inr []"
| "mapE f (x # xs) = bindE (f x) (\<lambda>y. bindE (mapE f xs) (\<lambda>ys. Inr (y # ys)))"

section \<open>The mesh\<close>

text \<open>
  The fields of a mesh that the pooling layer reads and writes: \<open>edges\<close> is the
  \<open>E \<times> 2\<close> array of vertex ids, \<open>gemm_edges\<close> and \<open>sides\<close> are the \<open>E \<times> 6\<close> arrays of
  neighbour edges and back-pointers, \<open>ve\<close> lists the edges at each vertex.
\<close>

record mesh =
  edges :: "(int \<times> int) list"
  gemm_edges :: "int list list"
  sides :: "int list list"
  ve :: "int list list"
  edges_count :: int

section \<open>Building the neighbourhood arrays\<close>

text \<open>
  \<^verbatim>\<open>build_gemm\<close> (img2mesh_prepare.py) runs over the faces with the local variables
  below.  Edge keys and the counters \<open>nb_count\<close> start at zero and are only ever
  incremented, so they are naturals; the entries of \<open>edge_nb\<close> and \<open>sides\<close> start at
  \<open>-1\<close> and are integers.  The areas (\<open>edge_areas\<close>) are floating point numbers that
  no index depends on; they are left out.
\<close>

record gemm_state =
  gs_ve :: "int list list"
  gs_edge_nb :: "int list list"
  gs_sides :: "int list list"
  gs_edge2key :: "(int \<times> int) \<Rightarrow> nat option"
  gs_edges :: "(int \<times> int) list"
  gs_edges_count :: nat
  gs_nb_count :: "nat list"

text \<open>A \<open>for\<close> loop whose body may raise.\<close>

fun loopE :: "('s \<Rightarrow> 'a \<Rightarrow> error + 's) \<Rightarrow> 'a list \<Rightarrow> 's \<Rightarrow> error + 's" where
  "loopE body [] s = Inr s"
| "loopE body (x # xs) s = bindE (body s x) (loopE body xs)"

text \<open>A face is a row of four vertex ids; its edges are \<open>(face[i], face[(i + 1) % 4])\<close>.\<close>

type_synonym face = "int \<times> int \<times> int \<times> int"

definition cur_edges :: "face \<Rightarrow> (int \<times> int) list" where
  "cur_edges f = (case f of (a, b, c, d) \<Rightarrow> [(a, b), (b, c), (c, d), (d, a)])"

text \<open>\<open>tuple(sorted(list(edge)))\<close>\<close>

definition sorted_edge :: "int \<times> int \<Rightarrow> int \<times> int" where
  "sorted_edge e = (if fst e \<le> snd e then e else (snd e, fst e))"

text \<open>\<open>mesh.ve[v].append(k)\<close>\<close>

definition ve_append :: "int list list \<Rightarrow> int \<Rightarrow> int \<Rightarrow> error + int list list" where
  "ve_append vel v k = bindE (py_get vel v) (\<lambda>l. py_set vel v (l @ [k]))"

text \<open>The first inner loop: an edge that is not yet in \<open>edge2key\<close> gets the next key.\<close>

definition register_edge :: "gemm_state \<Rightarrow> int \<times> int \<Rightarrow> error + gemm_state" where
  "register_edge s edge =
     (case gs_edge2key s edge of
        Some _ \<Rightarrow> Inr s
      | None \<Rightarrow>
          bindE (ve_append (gs_ve s) (fst edge) (int (gs_edges_count s))) (\<lambda>ve1.
          bindE (ve_append ve1 (snd edge) (int (gs_edges_count s))) (\<lambda>ve2.
            Inr (s\<lparr>gs_edge2key := (gs_edge2key s)(edge \<mapsto> gs_edges_count s),
                   gs_edges := gs_edges s @ [edge],
                   gs_edge_nb := gs_edge_nb s @ [[-1, -1, -1, -1, -1, -1]],
                   gs_sides := gs_sides s @ [[-1, -1, -1, -1, -1, -1]],
                   gs_ve := ve2,
                   gs_nb_count := gs_nb_count s @ [0],
                   gs_edges_count := gs_edges_count s + 1\<rparr>))))"

text \<open>\<open>edge2key[edge]\<close> and \<open>nb_count[key]\<close>\<close>

definition lookup_key :: "gemm_state \<Rightarrow> int \<times> int \<Rightarrow> error + nat" where
  "lookup_key s edge = (case gs_edge2key s edge of None \<Rightarrow> Inl KeyError | Some k \<Rightarrow> Inr k)"

definition nb_count_at :: "gemm_state \<Rightarrow> nat \<Rightarrow> error + nat" where
  "nb_count_at s key = (if key < length (gs_nb_count s) then Inr (gs_nb_count s ! key) else Inl IndexError)"

text \<open>\<open>table[key][pos] = v\<close> on a list of rows\<close>

definition set_slot :: "int list list \<Rightarrow> nat \<Rightarrow> int \<Rightarrow> int \<Rightarrow> error + int list list" where
  "set_slot table key pos v =
     (if key < length table
      then bindE (py_set (table ! key) pos v) (\<lambda>row. Inr (table[key := row]))
      else Inl IndexError)"

text \<open>
  The second inner loop: the three other edges of the face go into the next three free
  slots of the edge's row.  A row has six slots, so the write fails for an edge that is
  already in two faces.
\<close>

definition fill_nb_slot :: "(int \<times> int) list \<Rightarrow> nat \<Rightarrow> nat \<Rightarrow> nat \<Rightarrow> gemm_state \<Rightarrow> error + gemm_state" where
  "fill_nb_slot faces_edges idx edge_key j s =
     bindE (lookup_key s (faces_edges ! ((idx + j + 1) mod 4))) (\<lambda>n.
     bindE (nb_count_at s edge_key) (\<lambda>c.
     bindE (set_slot (gs_edge_nb s) edge_key (int c + int j) (int n)) (\<lambda>t.
       Inr (s\<lparr>gs_edge_nb := t\<rparr>))))"

definition fill_nb :: "(int \<times> int) list \<Rightarrow> gemm_state \<Rightarrow> nat \<Rightarrow> error + gemm_state" where
  "fill_nb faces_edges s idx =
     bindE (lookup_key s (faces_edges ! idx)) (\<lambda>edge_key.
     bindE (fill_nb_slot faces_edges idx edge_key 0 s) (\<lambda>s1.
     bindE (fill_nb_slot faces_edges idx edge_key 1 s1) (\<lambda>s2.
     bindE (fill_nb_slot faces_edges idx edge_key 2 s2) (\<lambda>s3.
     bindE (nb_count_at s3 edge_key) (\<lambda>c.
       Inr (s3\<lparr>gs_nb_count := (gs_nb_count s3)[edge_key := c + 3]\<rparr>))))))"

text \<open>
  The third inner loop: \<open>sides[edge_key][nb_count[edge_key] - 3 + j] =
  nb_count[edge2key[faces_edges[(idx + j + 1) % 4]]] - (j + 1)\<close> for \<open>j = 0, 1, 2\<close>.
\<close>

definition fill_sides_slot :: "(int \<times> int) list \<Rightarrow> nat \<Rightarrow> nat \<Rightarrow> nat \<Rightarrow> gemm_state \<Rightarrow> error + gemm_state" where
  "fill_sides_slot faces_edges idx edge_key j s =
     bindE (lookup_key s (faces_edges ! ((idx + j + 1) mod 4))) (\<lambda>n.
     bindE (nb_count_at s n) (\<lambda>cn.
     bindE (nb_count_at s edge_key) (\<lambda>c.
     bindE (set_slot (gs_sides s) edge_key (int c - 3 + int j) (int cn - (int j + 1))) (\<lambda>t.
       Inr (s\<lparr>gs_sides := t\<rparr>)))))"

definition fill_sides :: "(int \<times> int) list \<Rightarrow> gemm_state \<Rightarrow> nat \<Rightarrow> error + gemm_state" where
  "fill_sides faces_edges s idx =
     bindE (lookup_key s (faces_edges ! idx)) (\<lambda>edge_key.
     bindE (fill_sides_slot faces_edges idx edge_key 0 s) (\<lambda>s1.
     bindE (fill_sides_slot faces_edges idx edge_key 1 s1) (\<lambda>s2.
     fill_sides_slot faces_edges idx edge_key 2 s2)))"

text \<open>The body of the loop over the faces.\<close>

definition build_gemm_face :: "gemm_state \<Rightarrow> face \<Rightarrow> error + gemm_state" where
  "build_gemm_face s f =
     (let faces_edges = map sorted_edge (cur_edges f) in
      bindE (loopE register_edge faces_edges s) (\<lambda>s1.
      bindE (loopE (fill_nb faces_edges) [0, 1, 2, 3] s1) (\<lambda>s2.
      loopE (fill_sides faces_edges) [0, 1, 2, 3] s2)))"

definition gemm_init :: "nat \<Rightarrow> gemm_state" where
  "gemm_init n_vs =
     \<lparr>gs_ve = replicate n_vs [], gs_edge_nb = [], gs_sides = [], gs_edge2key = Map.empty,
      gs_edges = [], gs_edges_count = 0, gs_nb_count = []\<rparr>"

definition mesh_of :: "gemm_state \<Rightarrow> mesh" where
  "mesh_of s =
     \<lparr>edges = gs_edges s, gemm_edges = gs_edge_nb s, sides = gs_sides s, ve = gs_ve s,
      edges_count = int (gs_edges_count s)\<rparr>"

text \<open>\<^verbatim>\<open>build_gemm\<close> for a mesh with \<open>n_vs\<close> vertices.\<close>

definition build_gemm :: "nat \<Rightarrow> face list \<Rightarrow> error + mesh" where
  "build_gemm n_vs faces = bindE (loopE build_gemm_face faces (gemm_init n_vs)) (\<lambda>s. Inr (mesh_of s))"

text \<open>
  The back-pointer property of one edge, read with numpy's indexing: every slot \<open>k\<close> of
  the edge's row that holds a neighbour \<open>n\<close> has \<open>gemm_edges[n][sides[e][k]] == e\<close>.
\<close>

definition back_pointer_slot :: "mesh \<Rightarrow> int \<Rightarrow> int \<Rightarrow> bool" where
  "back_pointer_slot m e k =
     (case np_get2 (gemm_edges m) e k of
        Inl _ \<Rightarrow> False
      | Inr n \<Rightarrow> n = -1 \<or>
          (case np_get2 (sides m) e k of
             Inl _ \<Rightarrow> False
           | Inr s \<Rightarrow> np_get2 (gemm_edges m) n s = Inr e))"

definition back_pointers_hold :: "mesh \<Rightarrow> int \<Rightarrow> bool" where
  "back_pointers_hold m e = list_all (back_pointer_slot m e) [0, 1, 2, 3, 4, 5]"

section \<open>Shared items of two neighbour lists\<close>

text \<open>
  \<^verbatim>\<open>__get_shared_items\<close>: the two nested loops, the accumulator \<open>shared_items\<close>
  extended by the index pair at every match.
\<close>

fun shared_items_inner :: "'a list \<Rightarrow> 'a list \<Rightarrow> nat \<Rightarrow> nat list \<Rightarrow> nat list \<Rightarrow> nat list" where
  "shared_items_inner list_a list_b i [] shared_items = shared_items"
| "shared_items_inner list_a list_b i (j # js) shared_items =
     shared_items_inner list_a list_b i js
       (if list_a ! i = list_b ! j then shared_items @ [i, j] else shared_items)"

fun shared_items_outer :: "'a list \<Rightarrow> 'a list \<Rightarrow> nat list \<Rightarrow> nat list \<Rightarrow> nat list" where
  "shared_items_outer list_a list_b [] shared_items = shared_items"
| "shared_items_outer list_a list_b (i # is) shared_items =
     shared_items_outer list_a list_b is
       (shared_items_inner list_a list_b i [0..<length list_b] shared_items)"

definition get_shared_items :: "'a list \<Rightarrow> 'a list \<Rightarrow> nat list" where
  "get_shared_items list_a list_b = shared_items_outer list_a list_b [0..<length list_a] []"

text \<open>The index pairs at which the two lists hold equal elements.\<close>

definition matching_pairs :: "'a list \<Rightarrow> 'a list \<Rightarrow> (nat \<times> nat) set" where
  "matching_pairs list_a list_b =
     {(i, j). i < length list_a \<and> j < length list_b \<and> list_a ! i = list_b ! j}"

lemma length_shared_items_inner:
  "length (shared_items_inner a b i js acc) = length acc + 2 * length (filter (\<lambda>j. a ! i = b ! j) js)"
  by (induction js arbitrary: acc) auto

lemma length_shared_items_outer:
  "length (shared_items_outer a b is acc) =
     length acc + 2 * (\<Sum>i\<leftarrow>is. length (filter (\<lambda>j. a ! i = b ! j) [0..<length b]))"
  by (induction "is" arbitrary: acc) (auto simp: length_shared_items_inner)

lemma matching_pairs_Sigma:
  "matching_pairs a b = (SIGMA i:{..<length a}. {j. j < length b \<and> a ! i = b ! j})"
  by (auto simp: matching_pairs_def)

lemma card_matching_row:
  "card {j. j < length b \<and> x = b ! j} = length (filter (\<lambda>j. x = b ! j) [0..<length b])"
proof -
  have "{j. j < length b \<and> x = b ! j} = set (filter (\<lambda>j. x = b ! j) [0..<length b])"
    by auto
  moreover have "card (set (filter (\<lambda>j. x = b ! j) [0..<length b]))
      = length (filter (\<lambda>j. x = b ! j) [0..<length b])"
    by (rule distinct_card) simp
  ultimately show ?thesis
    by simp
qed

lemma card_matching_pairs:
  "card (matching_pairs a b) =
     (\<Sum>i\<leftarrow>[0..<length a]. length (filter (\<lambda>j. a ! i = b ! j) [0..<length b]))"
proof -
  have "card (matching_pairs a b) = (\<Sum>i\<in>{..<length a}. card {j. j < length b \<and> a ! i = b ! j})"
    unfolding matching_pairs_Sigma by (subst card_SigmaI) auto
  also have "\<dots> = (\<Sum>i\<in>{..<length a}. length (filter (\<lambda>j. a ! i = b ! j) [0..<length b]))"
    by (simp add: card_matching_row)
  also have "\<dots> = (\<Sum>i\<leftarrow>[0..<length a]. length (filter (\<lambda>j. a ! i = b ! j) [0..<length b]))"
    by (simp add: interv_sum_list_conv_sum_set_nat atLeast0LessThan)
  finally show ?thesis .
qed

lemma length_get_shared_items:
  "length (get_shared_items a b) = 2 * card (matching_pairs a b)"
  by (simp add: get_shared_items_def length_shared_items_outer card_matching_pairs)

text \<open>
  Claim C10.  The list returned by \<^verbatim>\<open>__get_shared_items\<close> has twice as many entries as
  there are index pairs \<open>(i, j)\<close> with \<open>list_a[i] == list_b[j]\<close>; its length is therefore
  even, and the test \<open>len(shared_items) <= 2\<close> of \<^verbatim>\<open>__clean_side\<close> holds exactly when at
  most one such pair exists.
\<close>

theorem get_shared_items_length:
  "length (get_shared_items list_a list_b) = 2 * card (matching_pairs list_a list_b)
   \<and> even (length (get_shared_items list_a list_b))
   \<and> ((length (get_shared_items list_a list_b) \<le> 2) = (card (matching_pairs list_a list_b) \<le> 1))"
  by (simp add: length_get_shared_items)


section \<open>The back-pointer property of a freshly built mesh\<close>

subsection \<open>Evaluation rules for the primitives\<close>

lemma bindE_Inr [simp]: "bindE (Inr v) f = f v"
  by (simp add: bindE_def)

lemma bindE_Inl [simp]: "bindE (Inl e) f = Inl e"
  by (simp add: bindE_def)

lemma bindE_eq_Inr: "(bindE x f = Inr y) = (\<exists>v. x = Inr v \<and> f v = Inr y)"
  by (cases x) auto

lemma np_idx_int [simp]: "np_idx n (int k) = (if k < n then Inr k else Inl IndexError)"
  by (simp add: np_idx_def)

lemma py_set_int [simp]: "py_set xs (int k) v = (if k < length xs then Inr (xs[k := v]) else Inl IndexError)"
  by (simp add: py_set_def)

lemma py_get_int [simp]: "py_get xs (int k) = (if k < length xs then Inr (xs ! k) else Inl IndexError)"
  by (simp add: py_get_def)


lemma np_idx_int_add [simp]: "np_idx n (int k + int j) = (if k + j < n then Inr (k + j) else Inl IndexError)"
  using np_idx_int[of n "k + j"] by (simp del: np_idx_int)

lemma py_set_int_add: "py_set xs (int k + int j) v = (if k + j < length xs then Inr (xs[k + j := v]) else Inl IndexError)"
  by (simp add: py_set_def)

lemma py_set_nonneg:
  "0 \<le> i \<Longrightarrow> py_set xs i v = (if nat i < length xs then Inr (xs[nat i := v]) else Inl IndexError)"
  by (auto simp: py_set_def np_idx_def)

lemma lookup_key_upd [simp]:
  "lookup_key (s\<lparr>gs_edge_nb := t\<rparr>) e = lookup_key s e"
  "lookup_key (s\<lparr>gs_sides := t\<rparr>) e = lookup_key s e"
  "lookup_key (s\<lparr>gs_nb_count := c\<rparr>) e = lookup_key s e"
  by (simp_all add: lookup_key_def)

lemma nb_count_at_upd [simp]:
  "nb_count_at (s\<lparr>gs_edge_nb := t\<rparr>) k = nb_count_at s k"
  "nb_count_at (s\<lparr>gs_sides := t\<rparr>) k = nb_count_at s k"
  by (simp_all add: nb_count_at_def)

lemma fill_nb_slot_effect:
  assumes "lookup_key s (fe ! ((idx + j + 1) mod 4)) = Inr n"
    and "k < length (gs_edge_nb s)" and "length (gs_nb_count s) = length (gs_edge_nb s)"
  shows "fill_nb_slot fe idx k j s =
     (if gs_nb_count s ! k + j < length (gs_edge_nb s ! k)
      then Inr (s\<lparr>gs_edge_nb := (gs_edge_nb s)[k := (gs_edge_nb s ! k)[gs_nb_count s ! k + j := int n]]\<rparr>)
      else Inl IndexError)"
  using assms by (simp add: fill_nb_slot_def nb_count_at_def set_slot_def py_set_int_add)

definition upd3 :: "int list \<Rightarrow> nat \<Rightarrow> int \<Rightarrow> int \<Rightarrow> int \<Rightarrow> int list" where
  "upd3 row c x y z = row[c := x, c + 1 := y, c + 2 := z]"

lemma lookup_key_upd2 [simp]:
  "lookup_key (s\<lparr>gs_edge_nb := t, gs_nb_count := c\<rparr>) e = lookup_key s e"
  by (simp add: lookup_key_def)

lemma fill_nb_effect:
  assumes lk: "\<forall>i<4. lookup_key s (fe ! i) = Inr (ks ! i)"
    and "idx < 4"
    and "ks ! idx < length (gs_edge_nb s)" and "length (gs_nb_count s) = length (gs_edge_nb s)"
    and "length (gs_edge_nb s ! (ks ! idx)) = 6"
  shows "fill_nb fe s idx =
     (if gs_nb_count s ! (ks ! idx) \<le> 3 then
     Inr (s\<lparr>gs_edge_nb := (gs_edge_nb s)[ks ! idx :=
              upd3 (gs_edge_nb s ! (ks ! idx)) (gs_nb_count s ! (ks ! idx))
                (int (ks ! ((idx + 1) mod 4))) (int (ks ! ((idx + 2) mod 4))) (int (ks ! ((idx + 3) mod 4)))],
            gs_nb_count := (gs_nb_count s)[ks ! idx := gs_nb_count s ! (ks ! idx) + 3]\<rparr>)
     else Inl IndexError)"
proof -
  have m: "(idx + 0 + 1) mod 4 < 4" "(idx + 1 + 1) mod 4 < 4" "(idx + 2 + 1) mod 4 < 4" by simp_all
  have l: "\<And>i. i < 4 \<Longrightarrow> lookup_key s (fe ! i) = Inr (ks ! i)" using lk by simp
  show ?thesis
    using assms(2-5) l[OF assms(2)] l[OF m(1)] l[OF m(2)] l[OF m(3)]
    by (simp add: fill_nb_def fill_nb_slot_effect nb_count_at_def upd3_def add.commute)
qed

lemma length_upd3 [simp]: "length (upd3 row c x y z) = length row"
  by (simp add: upd3_def)

lemma fill_sides_slot_effect:
  assumes "lookup_key s (fe ! ((idx + j + 1) mod 4)) = Inr n"
    and "k < length (gs_sides s)" and "length (gs_nb_count s) = length (gs_sides s)"
    and "n < length (gs_sides s)" and "3 \<le> gs_nb_count s ! k"
  shows "fill_sides_slot fe idx k j s =
     (if gs_nb_count s ! k - 3 + j < length (gs_sides s ! k)
      then Inr (s\<lparr>gs_sides := (gs_sides s)[k := (gs_sides s ! k)[gs_nb_count s ! k - 3 + j :=
                 int (gs_nb_count s ! n) - (int j + 1)]]\<rparr>)
      else Inl IndexError)"
proof -
  have e: "0 \<le> int (gs_nb_count s ! k) - 3 + int j"
    "nat (int (gs_nb_count s ! k) - 3 + int j) = gs_nb_count s ! k - 3 + j"
    using assms(5) by simp_all
  show ?thesis
    using assms(1-4) e
    by (simp add: fill_sides_slot_def nb_count_at_def set_slot_def py_set_nonneg)
qed

lemma fill_sides_effect:
  assumes lk: "\<forall>i<4. lookup_key s (fe ! i) = Inr (ks ! i)"
    and "idx < 4"
    and "\<forall>i<4. ks ! i < length (gs_sides s)" and "length (gs_nb_count s) = length (gs_sides s)"
    and "length (gs_sides s ! (ks ! idx)) = 6"
    and "3 \<le> gs_nb_count s ! (ks ! idx)" and "gs_nb_count s ! (ks ! idx) \<le> 6"
  shows "fill_sides fe s idx =
     Inr (s\<lparr>gs_sides := (gs_sides s)[ks ! idx :=
              upd3 (gs_sides s ! (ks ! idx)) (gs_nb_count s ! (ks ! idx) - 3)
                (int (gs_nb_count s ! (ks ! ((idx + 1) mod 4))) - 1)
                (int (gs_nb_count s ! (ks ! ((idx + 2) mod 4))) - 2)
                (int (gs_nb_count s ! (ks ! ((idx + 3) mod 4))) - 3)]\<rparr>)"
proof -
  have m: "(idx + 0 + 1) mod 4 < 4" "(idx + 1 + 1) mod 4 < 4" "(idx + 2 + 1) mod 4 < 4" by simp_all
  have l: "\<And>i. i < 4 \<Longrightarrow> lookup_key s (fe ! i) = Inr (ks ! i)" using lk by simp
  have b: "\<And>i. i < 4 \<Longrightarrow> ks ! i < length (gs_sides s)" using assms(3) by simp
  show ?thesis
    using assms(2,4-7) b[OF assms(2)] b[OF m(1)] b[OF m(2)] b[OF m(3)]
      l[OF assms(2)] l[OF m(1)] l[OF m(2)] l[OF m(3)]
    by (simp add: fill_sides_def fill_sides_slot_effect upd3_def add.commute)
qed

lemma all_less_4: "(\<forall>i<4. P i) = (P 0 \<and> P 1 \<and> P 2 \<and> P (3::nat))"
proof -
  have "\<And>i::nat. i < 4 \<longleftrightarrow> i = 0 \<or> i = 1 \<or> i = 2 \<or> i = 3" by arith
  then show ?thesis by auto
qed

lemma loop_fill_nb:
  assumes lk: "\<forall>i<4. lookup_key s (fe ! i) = Inr ([k0, k1, k2, k3] ! i)"
    and d: "distinct [k0, k1, k2, k3]"
    and b: "k0 < length (gs_edge_nb s)" "k1 < length (gs_edge_nb s)" "k2 < length (gs_edge_nb s)" "k3 < length (gs_edge_nb s)"
    and len: "length (gs_nb_count s) = length (gs_edge_nb s)"
    and rows: "\<forall>e < length (gs_edge_nb s). length (gs_edge_nb s ! e) = 6"
  shows "loopE (fill_nb fe) [0, 1, 2, 3] s =
    (if gs_nb_count s ! k0 \<le> 3 \<and> gs_nb_count s ! k1 \<le> 3 \<and> gs_nb_count s ! k2 \<le> 3 \<and> gs_nb_count s ! k3 \<le> 3
     then Inr (s\<lparr>gs_edge_nb := (gs_edge_nb s)
                 [k0 := upd3 (gs_edge_nb s ! k0) (gs_nb_count s ! k0) (int k1) (int k2) (int k3),
                  k1 := upd3 (gs_edge_nb s ! k1) (gs_nb_count s ! k1) (int k2) (int k3) (int k0),
                  k2 := upd3 (gs_edge_nb s ! k2) (gs_nb_count s ! k2) (int k3) (int k0) (int k1),
                  k3 := upd3 (gs_edge_nb s ! k3) (gs_nb_count s ! k3) (int k0) (int k1) (int k2)],
               gs_nb_count := (gs_nb_count s)
                 [k0 := gs_nb_count s ! k0 + 3, k1 := gs_nb_count s ! k1 + 3,
                  k2 := gs_nb_count s ! k2 + 3, k3 := gs_nb_count s ! k3 + 3]\<rparr>)
     else Inl IndexError)"
proof -
  have lk': "\<And>t c. \<forall>i<4. lookup_key (s\<lparr>gs_edge_nb := t, gs_nb_count := c\<rparr>) (fe ! i) = Inr ([k0, k1, k2, k3] ! i)"
    using lk by simp
  show ?thesis
    using d b len rows
    by (simp add: fill_nb_effect[where ks="[k0, k1, k2, k3]", OF lk]
        fill_nb_effect[where ks="[k0, k1, k2, k3]", OF lk'])
qed


lemma loop_fill_sides:
  assumes lk: "\<forall>i<4. lookup_key s (fe ! i) = Inr ([k0, k1, k2, k3] ! i)"
    and d: "distinct [k0, k1, k2, k3]"
    and b: "k0 < length (gs_sides s)" "k1 < length (gs_sides s)" "k2 < length (gs_sides s)" "k3 < length (gs_sides s)"
    and len: "length (gs_nb_count s) = length (gs_sides s)"
    and rows: "\<forall>e < length (gs_sides s). length (gs_sides s ! e) = 6"
    and c: "3 \<le> gs_nb_count s ! k0" "gs_nb_count s ! k0 \<le> 6" "3 \<le> gs_nb_count s ! k1" "gs_nb_count s ! k1 \<le> 6"
       "3 \<le> gs_nb_count s ! k2" "gs_nb_count s ! k2 \<le> 6" "3 \<le> gs_nb_count s ! k3" "gs_nb_count s ! k3 \<le> 6"
  shows "loopE (fill_sides fe) [0, 1, 2, 3] s =
     Inr (s\<lparr>gs_sides := (gs_sides s)
        [k0 := upd3 (gs_sides s ! k0) (gs_nb_count s ! k0 - 3)
                 (int (gs_nb_count s ! k1) - 1) (int (gs_nb_count s ! k2) - 2) (int (gs_nb_count s ! k3) - 3),
         k1 := upd3 (gs_sides s ! k1) (gs_nb_count s ! k1 - 3)
                 (int (gs_nb_count s ! k2) - 1) (int (gs_nb_count s ! k3) - 2) (int (gs_nb_count s ! k0) - 3),
         k2 := upd3 (gs_sides s ! k2) (gs_nb_count s ! k2 - 3)
                 (int (gs_nb_count s ! k3) - 1) (int (gs_nb_count s ! k0) - 2) (int (gs_nb_count s ! k1) - 3),
         k3 := upd3 (gs_sides s ! k3) (gs_nb_count s ! k3 - 3)
                 (int (gs_nb_count s ! k0) - 1) (int (gs_nb_count s ! k1) - 2) (int (gs_nb_count s ! k2) - 3)]\<rparr>)"
proof -
  have lk': "\<And>t. \<forall>i<4. lookup_key (s\<lparr>gs_sides := t\<rparr>) (fe ! i) = Inr ([k0, k1, k2, k3] ! i)"
    using lk by simp
  show ?thesis
    using d b len rows c
    by (simp add: fill_sides_effect[where ks="[k0, k1, k2, k3]", OF lk]
        fill_sides_effect[where ks="[k0, k1, k2, k3]", OF lk'] all_less_4)
qed

definition fill_face :: "gemm_state \<Rightarrow> nat \<Rightarrow> nat \<Rightarrow> nat \<Rightarrow> nat \<Rightarrow> gemm_state" where
  "fill_face s k0 k1 k2 k3 =
     (let nb = gs_edge_nb s; sd = gs_sides s; cnt = gs_nb_count s;
          c0 = cnt ! k0; c1 = cnt ! k1; c2 = cnt ! k2; c3 = cnt ! k3 in
      s\<lparr>gs_edge_nb := nb
           [k0 := upd3 (nb ! k0) c0 (int k1) (int k2) (int k3),
            k1 := upd3 (nb ! k1) c1 (int k2) (int k3) (int k0),
            k2 := upd3 (nb ! k2) c2 (int k3) (int k0) (int k1),
            k3 := upd3 (nb ! k3) c3 (int k0) (int k1) (int k2)],
         gs_nb_count := cnt[k0 := c0 + 3, k1 := c1 + 3, k2 := c2 + 3, k3 := c3 + 3],
         gs_sides := sd
           [k0 := upd3 (sd ! k0) c0 (int c1 + 2) (int c2 + 1) (int c3),
            k1 := upd3 (sd ! k1) c1 (int c2 + 2) (int c3 + 1) (int c0),
            k2 := upd3 (sd ! k2) c2 (int c3 + 2) (int c0 + 1) (int c1),
            k3 := upd3 (sd ! k3) c3 (int c0 + 2) (int c1 + 1) (int c2)]\<rparr>)"

lemma face_fill_loops:
  assumes lk: "\<forall>i<4. lookup_key s (fe ! i) = Inr ([k0, k1, k2, k3] ! i)"
    and d: "distinct [k0, k1, k2, k3]"
    and b: "k0 < length (gs_edge_nb s)" "k1 < length (gs_edge_nb s)" "k2 < length (gs_edge_nb s)" "k3 < length (gs_edge_nb s)"
    and len: "length (gs_nb_count s) = length (gs_edge_nb s)" "length (gs_sides s) = length (gs_edge_nb s)"
    and rows: "\<forall>e < length (gs_edge_nb s). length (gs_edge_nb s ! e) = 6 \<and> length (gs_sides s ! e) = 6"
  shows "bindE (loopE (fill_nb fe) [0, 1, 2, 3] s) (loopE (fill_sides fe) [0, 1, 2, 3]) =
    (if gs_nb_count s ! k0 \<le> 3 \<and> gs_nb_count s ! k1 \<le> 3 \<and> gs_nb_count s ! k2 \<le> 3 \<and> gs_nb_count s ! k3 \<le> 3
     then Inr (fill_face s k0 k1 k2 k3) else Inl IndexError)"
proof -
  let ?C = "gs_nb_count s ! k0 \<le> 3 \<and> gs_nb_count s ! k1 \<le> 3 \<and> gs_nb_count s ! k2 \<le> 3 \<and> gs_nb_count s ! k3 \<le> 3"
  have nbrows: "\<forall>e < length (gs_edge_nb s). length (gs_edge_nb s ! e) = 6"
    using rows by simp
  note L = loop_fill_nb[OF lk d b len(1) nbrows]
  show ?thesis
  proof (cases ?C)
  case False
  then have "loopE (fill_nb fe) [0, 1, 2, 3] s = Inl IndexError"
    unfolding L by (rule if_not_P)
  then show ?thesis
    using False by (simp only: bindE_Inl if_False simp_thms)
next
  case True
  define s2 where "s2 = s\<lparr>gs_edge_nb := (gs_edge_nb s)
                 [k0 := upd3 (gs_edge_nb s ! k0) (gs_nb_count s ! k0) (int k1) (int k2) (int k3),
                  k1 := upd3 (gs_edge_nb s ! k1) (gs_nb_count s ! k1) (int k2) (int k3) (int k0),
                  k2 := upd3 (gs_edge_nb s ! k2) (gs_nb_count s ! k2) (int k3) (int k0) (int k1),
                  k3 := upd3 (gs_edge_nb s ! k3) (gs_nb_count s ! k3) (int k0) (int k1) (int k2)],
               gs_nb_count := (gs_nb_count s)
                 [k0 := gs_nb_count s ! k0 + 3, k1 := gs_nb_count s ! k1 + 3,
                  k2 := gs_nb_count s ! k2 + 3, k3 := gs_nb_count s ! k3 + 3]\<rparr>"
  have 1: "loopE (fill_nb fe) [0, 1, 2, 3] s = Inr s2"
    using True by (simp only: L s2_def simp_thms if_True)
  have lk2: "\<forall>i<4. lookup_key s2 (fe ! i) = Inr ([k0, k1, k2, k3] ! i)"
    using lk by (simp add: s2_def)
  have cnt2: "gs_nb_count s2 ! k0 = gs_nb_count s ! k0 + 3" "gs_nb_count s2 ! k1 = gs_nb_count s ! k1 + 3"
    "gs_nb_count s2 ! k2 = gs_nb_count s ! k2 + 3" "gs_nb_count s2 ! k3 = gs_nb_count s ! k3 + 3"
    using d b len by (simp_all add: s2_def)
  have 2: "loopE (fill_sides fe) [0, 1, 2, 3] s2 = Inr (fill_face s k0 k1 k2 k3)"
    apply (subst loop_fill_sides[OF lk2 d])
    using b len rows True cnt2 apply (simp_all add: s2_def)[14]
    using cnt2 by (simp add: s2_def fill_face_def Let_def add.commute)
  show ?thesis using True by (simp only: 1 2 bindE_Inr if_True simp_thms)
qed
qed


definition gemm_inv :: "gemm_state \<Rightarrow> bool" where
  "gemm_inv s =
     (length (gs_edge_nb s) = gs_edges_count s \<and> length (gs_sides s) = gs_edges_count s \<and>
      length (gs_nb_count s) = gs_edges_count s \<and>
      (\<forall>edge k. gs_edge2key s edge = Some k \<longrightarrow> k < gs_edges_count s) \<and>
      (\<forall>e1 e2 k. gs_edge2key s e1 = Some k \<longrightarrow> gs_edge2key s e2 = Some k \<longrightarrow> e1 = e2) \<and>
      (\<forall>e < gs_edges_count s.
         length (gs_edge_nb s ! e) = 6 \<and> length (gs_sides s ! e) = 6 \<and> gs_nb_count s ! e \<le> 6 \<and>
         (\<forall>j < 6.
            (j < gs_nb_count s ! e \<longrightarrow>
               (\<exists>n p. n < gs_edges_count s \<and> p < gs_nb_count s ! n \<and>
                  gs_edge_nb s ! e ! j = int n \<and> gs_sides s ! e ! j = int p \<and>
                  gs_edge_nb s ! n ! p = int e)) \<and>
            (gs_nb_count s ! e \<le> j \<longrightarrow> gs_edge_nb s ! e ! j = -1))))"

lemma upd3_nth_off:
  "c + 2 < length row \<Longrightarrow> t < 3 \<Longrightarrow> upd3 row c x y z ! (c + t) = [x, y, z] ! t"
proof -
  assume a: "c + 2 < length row" "t < 3"
  then have "t = 0 \<or> t = 1 \<or> t = 2" by arith
  with a show ?thesis by (auto simp: upd3_def)
qed

lemma upd3_nth_other:
  "j < c \<or> c + 3 \<le> j \<Longrightarrow> upd3 row c x y z ! j = row ! j"
  by (auto simp: upd3_def)

lemma fill_face_fields [simp]:
  "gs_edge2key (fill_face s k0 k1 k2 k3) = gs_edge2key s"
  "gs_edges_count (fill_face s k0 k1 k2 k3) = gs_edges_count s"
  "gs_edges (fill_face s k0 k1 k2 k3) = gs_edges s"
  "gs_ve (fill_face s k0 k1 k2 k3) = gs_ve s"
  "length (gs_edge_nb (fill_face s k0 k1 k2 k3)) = length (gs_edge_nb s)"
  "length (gs_sides (fill_face s k0 k1 k2 k3)) = length (gs_sides s)"
  "length (gs_nb_count (fill_face s k0 k1 k2 k3)) = length (gs_nb_count s)"
  by (simp_all add: fill_face_def Let_def)

lemma fill_face_other:
  assumes "e \<noteq> k0" "e \<noteq> k1" "e \<noteq> k2" "e \<noteq> k3"
  shows "gs_edge_nb (fill_face s k0 k1 k2 k3) ! e = gs_edge_nb s ! e"
    and "gs_sides (fill_face s k0 k1 k2 k3) ! e = gs_sides s ! e"
    and "gs_nb_count (fill_face s k0 k1 k2 k3) ! e = gs_nb_count s ! e"
  using assms by (simp_all add: fill_face_def Let_def)

lemma fill_face_key:
  assumes d: "distinct [k0, k1, k2, k3]"
    and b: "k0 < gs_edges_count s" "k1 < gs_edges_count s" "k2 < gs_edges_count s" "k3 < gs_edges_count s"
    and len: "length (gs_edge_nb s) = gs_edges_count s" "length (gs_sides s) = gs_edges_count s"
      "length (gs_nb_count s) = gs_edges_count s"
    and i: "i < 4"
  shows "gs_edge_nb (fill_face s k0 k1 k2 k3) ! ([k0, k1, k2, k3] ! i) =
      upd3 (gs_edge_nb s ! ([k0, k1, k2, k3] ! i)) (gs_nb_count s ! ([k0, k1, k2, k3] ! i))
        (int ([k0, k1, k2, k3] ! ((i + 1) mod 4))) (int ([k0, k1, k2, k3] ! ((i + 2) mod 4)))
        (int ([k0, k1, k2, k3] ! ((i + 3) mod 4)))"
    and "gs_sides (fill_face s k0 k1 k2 k3) ! ([k0, k1, k2, k3] ! i) =
      upd3 (gs_sides s ! ([k0, k1, k2, k3] ! i)) (gs_nb_count s ! ([k0, k1, k2, k3] ! i))
        (int (gs_nb_count s ! ([k0, k1, k2, k3] ! ((i + 1) mod 4))) + 2)
        (int (gs_nb_count s ! ([k0, k1, k2, k3] ! ((i + 2) mod 4))) + 1)
        (int (gs_nb_count s ! ([k0, k1, k2, k3] ! ((i + 3) mod 4))))"
    and "gs_nb_count (fill_face s k0 k1 k2 k3) ! ([k0, k1, k2, k3] ! i) =
      gs_nb_count s ! ([k0, k1, k2, k3] ! i) + 3"
proof -
  have c: "i = 0 \<or> i = 1 \<or> i = 2 \<or> i = 3" using i by arith
  show "gs_edge_nb (fill_face s k0 k1 k2 k3) ! ([k0, k1, k2, k3] ! i) =
      upd3 (gs_edge_nb s ! ([k0, k1, k2, k3] ! i)) (gs_nb_count s ! ([k0, k1, k2, k3] ! i))
        (int ([k0, k1, k2, k3] ! ((i + 1) mod 4))) (int ([k0, k1, k2, k3] ! ((i + 2) mod 4)))
        (int ([k0, k1, k2, k3] ! ((i + 3) mod 4)))"
    using c d b len by (auto simp: fill_face_def Let_def)
  show "gs_sides (fill_face s k0 k1 k2 k3) ! ([k0, k1, k2, k3] ! i) =
      upd3 (gs_sides s ! ([k0, k1, k2, k3] ! i)) (gs_nb_count s ! ([k0, k1, k2, k3] ! i))
        (int (gs_nb_count s ! ([k0, k1, k2, k3] ! ((i + 1) mod 4))) + 2)
        (int (gs_nb_count s ! ([k0, k1, k2, k3] ! ((i + 2) mod 4))) + 1)
        (int (gs_nb_count s ! ([k0, k1, k2, k3] ! ((i + 3) mod 4))))"
    using c d b len by (auto simp: fill_face_def Let_def)
  show "gs_nb_count (fill_face s k0 k1 k2 k3) ! ([k0, k1, k2, k3] ! i) =
      gs_nb_count s ! ([k0, k1, k2, k3] ! i) + 3"
    using c d b len by (auto simp: fill_face_def Let_def)
qed


lemma cycle4_back: "i < 4 \<Longrightarrow> t < 3 \<Longrightarrow> (((i + t + 1) mod 4) + (2 - t) + 1) mod 4 = (i::nat)"
proof -
  assume "i < 4" "t < 3"
  then have "(i = 0 \<or> i = 1 \<or> i = 2 \<or> i = 3) \<and> (t = 0 \<or> t = 1 \<or> t = 2)" by arith
  then show ?thesis by auto
qed

lemma fill_face_inv:
  assumes inv: "gemm_inv s"
    and d: "distinct [k0, k1, k2, k3]"
    and b: "k0 < gs_edges_count s" "k1 < gs_edges_count s" "k2 < gs_edges_count s" "k3 < gs_edges_count s"
    and c: "gs_nb_count s ! k0 \<le> 3" "gs_nb_count s ! k1 \<le> 3" "gs_nb_count s ! k2 \<le> 3" "gs_nb_count s ! k3 \<le> 3"
  shows "gemm_inv (fill_face s k0 k1 k2 k3)"
proof -
  define ks where "ks = [k0, k1, k2, k3]"
  define s' where "s' = fill_face s k0 k1 k2 k3"
  define E where "E = gs_edges_count s"
  let ?nb = "gs_edge_nb s" and ?sd = "gs_sides s" and ?cnt = "gs_nb_count s"
  let ?nb' = "gs_edge_nb s'" and ?sd' = "gs_sides s'" and ?cnt' = "gs_nb_count s'"
  have len: "length ?nb = E" "length ?sd = E" "length ?cnt = E"
    using inv by (simp_all add: gemm_inv_def E_def)
  have rows: "\<And>e. e < E \<Longrightarrow> length (?nb ! e) = 6 \<and> length (?sd ! e) = 6 \<and> ?cnt ! e \<le> 6"
    using inv by (simp add: gemm_inv_def E_def)
  have old: "\<And>e j. e < E \<Longrightarrow> j < 6 \<Longrightarrow> j < ?cnt ! e \<Longrightarrow>
      \<exists>n p. n < E \<and> p < ?cnt ! n \<and> ?nb ! e ! j = int n \<and> ?sd ! e ! j = int p \<and> ?nb ! n ! p = int e"
    using inv unfolding gemm_inv_def E_def by blast
  have tail: "\<And>e j. e < E \<Longrightarrow> j < 6 \<Longrightarrow> ?cnt ! e \<le> j \<Longrightarrow> ?nb ! e ! j = -1"
    using inv unfolding gemm_inv_def E_def by blast
  have "\<forall>i<4. ks ! i < E"
    using b by (simp add: all_less_4 ks_def E_def)
  then have ksb: "\<And>i. i < 4 \<Longrightarrow> ks ! i < E" by blast
  have "\<forall>i<4. ?cnt ! (ks ! i) \<le> 3"
    using c by (simp add: all_less_4 ks_def)
  then have ksc: "\<And>i. i < 4 \<Longrightarrow> ?cnt ! (ks ! i) \<le> 3" by blast
  have key: "\<And>i. i < 4 \<Longrightarrow>
      ?nb' ! (ks ! i) = upd3 (?nb ! (ks ! i)) (?cnt ! (ks ! i))
         (int (ks ! ((i + 1) mod 4))) (int (ks ! ((i + 2) mod 4))) (int (ks ! ((i + 3) mod 4))) \<and>
      ?sd' ! (ks ! i) = upd3 (?sd ! (ks ! i)) (?cnt ! (ks ! i))
         (int (?cnt ! (ks ! ((i + 1) mod 4))) + 2) (int (?cnt ! (ks ! ((i + 2) mod 4))) + 1)
         (int (?cnt ! (ks ! ((i + 3) mod 4)))) \<and>
      ?cnt' ! (ks ! i) = ?cnt ! (ks ! i) + 3"
    unfolding ks_def s'_def
    using fill_face_key[OF d b] len by (simp add: E_def)
  have other: "\<And>e. e \<notin> set ks \<Longrightarrow> ?nb' ! e = ?nb ! e \<and> ?sd' ! e = ?sd ! e \<and> ?cnt' ! e = ?cnt ! e"
    unfolding ks_def s'_def by (simp add: fill_face_other)
  have "length ks = 4" by (simp add: ks_def)
  then have inks: "\<And>e. e \<in> set ks \<Longrightarrow> \<exists>i<4. e = ks ! i"
    by (metis in_set_conv_nth)
  have mono: "\<And>e. ?cnt ! e \<le> ?cnt' ! e"
  proof -
    fix e show "?cnt ! e \<le> ?cnt' ! e"
    proof (cases "e \<in> set ks")
      case True
      then obtain i where "i < 4" "e = ks ! i" using inks by blast
      then show ?thesis using key[of i] by simp
    next
      case False
      then show ?thesis using other by simp
    qed
  qed
  have frame: "\<And>e j. e < E \<Longrightarrow> j < ?cnt ! e \<or> ?cnt' ! e \<le> j \<Longrightarrow>
      ?nb' ! e ! j = ?nb ! e ! j \<and> ?sd' ! e ! j = ?sd ! e ! j"
  proof -
    fix e j assume e: "e < E" and j: "j < ?cnt ! e \<or> ?cnt' ! e \<le> j"
    show "?nb' ! e ! j = ?nb ! e ! j \<and> ?sd' ! e ! j = ?sd ! e ! j"
    proof (cases "e \<in> set ks")
      case True
      then obtain i where i: "i < 4" "e = ks ! i" using inks by blast
      have "j < ?cnt ! e \<or> ?cnt ! e + 3 \<le> j" using j key[OF i(1)] i(2) by simp
      then show ?thesis using key[OF i(1)] i(2) by (simp add: upd3_nth_other)
    next
      case False
      then show ?thesis using other by simp
    qed
  qed
  have new: "\<And>i t. i < 4 \<Longrightarrow> t < 3 \<Longrightarrow>
      ?nb' ! (ks ! i) ! (?cnt ! (ks ! i) + t) = int (ks ! ((i + t + 1) mod 4)) \<and>
      ?sd' ! (ks ! i) ! (?cnt ! (ks ! i) + t) = int (?cnt ! (ks ! ((i + t + 1) mod 4)) + (2 - t))"
  proof -
    fix i t :: nat assume i: "i < 4" and t: "t < 3"
    have l: "?cnt ! (ks ! i) + 2 < length (?nb ! (ks ! i))" "?cnt ! (ks ! i) + 2 < length (?sd ! (ks ! i))"
      using rows[OF ksb[OF i]] ksc[OF i] by simp_all
    have tc: "t = 0 \<or> t = 1 \<or> t = 2" using t by arith
    show "?nb' ! (ks ! i) ! (?cnt ! (ks ! i) + t) = int (ks ! ((i + t + 1) mod 4)) \<and>
      ?sd' ! (ks ! i) ! (?cnt ! (ks ! i) + t) = int (?cnt ! (ks ! ((i + t + 1) mod 4)) + (2 - t))"
      using key[OF i] upd3_nth_off[OF l(1) t] upd3_nth_off[OF l(2) t] tc
      by (auto simp: add.commute)
  qed
  have per_edge: "\<And>e j. e < E \<Longrightarrow> j < 6 \<Longrightarrow>
      (j < ?cnt' ! e \<longrightarrow>
         (\<exists>n p. n < E \<and> p < ?cnt' ! n \<and> ?nb' ! e ! j = int n \<and> ?sd' ! e ! j = int p \<and>
                ?nb' ! n ! p = int e)) \<and>
      (?cnt' ! e \<le> j \<longrightarrow> ?nb' ! e ! j = -1)"
  proof -
    fix e j :: nat assume e: "e < E" and j: "j < 6"
    have A: "\<exists>n p. n < E \<and> p < ?cnt' ! n \<and> ?nb' ! e ! j = int n \<and> ?sd' ! e ! j = int p \<and>
                ?nb' ! n ! p = int e" if jl: "j < ?cnt' ! e"
    proof (cases "j < ?cnt ! e")
      case True
      from old[OF e j True] obtain n p where np: "n < E" "p < ?cnt ! n" "?nb ! e ! j = int n"
        "?sd ! e ! j = int p" "?nb ! n ! p = int e" by blast
      have "p < ?cnt' ! n" using np(2) mono[of n] by simp
      moreover have "?nb' ! e ! j = int n" "?sd' ! e ! j = int p"
        using frame[OF e, of j] True np by simp_all
      moreover have "?nb' ! n ! p = int e"
        using frame[OF np(1), of p] np by simp
      ultimately show ?thesis using np(1) by blast
    next
      case False
      have "e \<in> set ks" using False jl other[of e] by auto
      then obtain i where i: "i < 4" "e = ks ! i" using inks by blast
      define t where "t = j - ?cnt ! e"
      have t: "t < 3" "j = ?cnt ! e + t" using False jl key[OF i(1)] i(2) by (simp_all add: t_def)
      define i' where "i' = (i + t + 1) mod 4"
      have i': "i' < 4" by (simp add: i'_def)
      define p where "p = ?cnt ! (ks ! i') + (2 - t)"
      have 1: "?nb' ! e ! j = int (ks ! i')" "?sd' ! e ! j = int p"
        using new[OF i(1) t(1)] i(2) t(2) by (simp_all add: i'_def p_def)
      have 2: "p < ?cnt' ! (ks ! i')" using key[OF i'] t(1) by (simp add: p_def)
      have "2 - t < 3" by simp
      from new[OF i' this] have "?nb' ! (ks ! i') ! p = int (ks ! ((i' + (2 - t) + 1) mod 4))"
        by (simp add: p_def)
      also have "(i' + (2 - t) + 1) mod 4 = i"
        unfolding i'_def by (rule cycle4_back[OF i(1) t(1)])
      finally have 3: "?nb' ! (ks ! i') ! p = int e" using i(2) by simp
      show ?thesis using 1 2 3 ksb[OF i'] by blast
    qed
    have B: "?nb' ! e ! j = -1" if jl: "?cnt' ! e \<le> j"
    proof -
      have "?cnt ! e \<le> j" using jl mono[of e] by simp
      then show ?thesis using frame[OF e, of j] jl tail[OF e j] by simp
    qed
    show "(j < ?cnt' ! e \<longrightarrow>
         (\<exists>n p. n < E \<and> p < ?cnt' ! n \<and> ?nb' ! e ! j = int n \<and> ?sd' ! e ! j = int p \<and>
                ?nb' ! n ! p = int e)) \<and>
      (?cnt' ! e \<le> j \<longrightarrow> ?nb' ! e ! j = -1)"
      using A B by blast
  qed
  have rows': "\<And>e. e < E \<Longrightarrow> length (?nb' ! e) = 6 \<and> length (?sd' ! e) = 6 \<and> ?cnt' ! e \<le> 6"
  proof -
    fix e assume e: "e < E"
    show "length (?nb' ! e) = 6 \<and> length (?sd' ! e) = 6 \<and> ?cnt' ! e \<le> 6"
    proof (cases "e \<in> set ks")
      case True
      then obtain i where i: "i < 4" "e = ks ! i" using inks by blast
      show ?thesis using key[OF i(1)] i(2) rows[OF e] ksc[OF i(1)] by simp
    next
      case False
      then show ?thesis using other rows[OF e] by simp
    qed
  qed
  have "gemm_inv s'"
    unfolding gemm_inv_def
    using inv rows' per_edge len
    by (simp add: s'_def E_def gemm_inv_def)
  then show ?thesis by (simp add: s'_def)
qed




subsection \<open>The invariant of the loop over the faces\<close>

lemma gemm_inv_init: "gemm_inv (gemm_init n)"
  by (simp add: gemm_inv_def gemm_init_def)

lemma bindE_InrE:
  assumes "bindE x f = Inr y"
  obtains v where "x = Inr v" "f v = Inr y"
  using assms by (cases x) auto

lemma register_edge_new:
  assumes n: "gs_edge2key s edge = None" and r: "register_edge s edge = Inr s'"
  shows "\<exists>ve2. s' = s\<lparr>gs_edge2key := (gs_edge2key s)(edge \<mapsto> gs_edges_count s),
                   gs_edges := gs_edges s @ [edge],
                   gs_edge_nb := gs_edge_nb s @ [[-1, -1, -1, -1, -1, -1]],
                   gs_sides := gs_sides s @ [[-1, -1, -1, -1, -1, -1]],
                   gs_ve := ve2,
                   gs_nb_count := gs_nb_count s @ [0],
                   gs_edges_count := gs_edges_count s + 1\<rparr>"
proof -
  from r n have "bindE (ve_append (gs_ve s) (fst edge) (int (gs_edges_count s))) (\<lambda>ve1.
          bindE (ve_append ve1 (snd edge) (int (gs_edges_count s))) (\<lambda>ve2.
            Inr (s\<lparr>gs_edge2key := (gs_edge2key s)(edge \<mapsto> gs_edges_count s),
                   gs_edges := gs_edges s @ [edge],
                   gs_edge_nb := gs_edge_nb s @ [[-1, -1, -1, -1, -1, -1]],
                   gs_sides := gs_sides s @ [[-1, -1, -1, -1, -1, -1]],
                   gs_ve := ve2,
                   gs_nb_count := gs_nb_count s @ [0],
                   gs_edges_count := gs_edges_count s + 1\<rparr>))) = Inr s'"
    by (simp add: register_edge_def)
  then show ?thesis
    by (elim bindE_InrE) blast
qed


lemma minus_ones_nth: "j < 6 \<Longrightarrow> [-1, -1, -1, -1, -1, -1] ! j = (-1::int)"
proof -
  assume "j < 6"
  then have "j = 0 \<or> j = 1 \<or> j = 2 \<or> j = 3 \<or> j = 4 \<or> j = 5" by arith
  then show ?thesis by auto
qed

lemma gemm_inv_append:
  assumes inv: "gemm_inv s" and n: "gs_edge2key s edge = None"
    and e2k: "gs_edge2key s' = (gs_edge2key s)(edge \<mapsto> gs_edges_count s)"
    and nb: "gs_edge_nb s' = gs_edge_nb s @ [[-1, -1, -1, -1, -1, -1]]"
    and sd: "gs_sides s' = gs_sides s @ [[-1, -1, -1, -1, -1, -1]]"
    and cnt: "gs_nb_count s' = gs_nb_count s @ [0]"
    and ec: "gs_edges_count s' = gs_edges_count s + 1"
  shows "gemm_inv s'"
proof -
  let ?E = "gs_edges_count s"
  have len: "length (gs_edge_nb s) = ?E" "length (gs_sides s) = ?E" "length (gs_nb_count s) = ?E"
    using inv by (simp_all add: gemm_inv_def)
  have keys: "\<And>x k. gs_edge2key s x = Some k \<Longrightarrow> k < ?E"
    using inv unfolding gemm_inv_def by blast
  have inj: "\<And>e1 e2 k. gs_edge2key s e1 = Some k \<Longrightarrow> gs_edge2key s e2 = Some k \<Longrightarrow> e1 = e2"
    using inv unfolding gemm_inv_def by blast
  have rows: "\<And>e. e < ?E \<Longrightarrow> length (gs_edge_nb s ! e) = 6 \<and> length (gs_sides s ! e) = 6 \<and> gs_nb_count s ! e \<le> 6"
    using inv unfolding gemm_inv_def by blast
  have old: "\<And>e j. e < ?E \<Longrightarrow> j < 6 \<Longrightarrow> j < gs_nb_count s ! e \<Longrightarrow>
      \<exists>n p. n < ?E \<and> p < gs_nb_count s ! n \<and> gs_edge_nb s ! e ! j = int n \<and>
         gs_sides s ! e ! j = int p \<and> gs_edge_nb s ! n ! p = int e"
    using inv unfolding gemm_inv_def by blast
  have tail: "\<And>e j. e < ?E \<Longrightarrow> j < 6 \<Longrightarrow> gs_nb_count s ! e \<le> j \<Longrightarrow> gs_edge_nb s ! e ! j = -1"
    using inv unfolding gemm_inv_def by blast
  have same: "\<And>e. e < ?E \<Longrightarrow> gs_edge_nb s' ! e = gs_edge_nb s ! e \<and> gs_sides s' ! e = gs_sides s ! e
      \<and> gs_nb_count s' ! e = gs_nb_count s ! e"
    using len by (simp add: nb sd cnt nth_append)
  have last: "gs_edge_nb s' ! ?E = [-1, -1, -1, -1, -1, -1]" "gs_sides s' ! ?E = [-1, -1, -1, -1, -1, -1]"
    "gs_nb_count s' ! ?E = 0"
    using len by (simp_all add: nb sd cnt nth_append)
  have k1: "\<forall>x k. gs_edge2key s' x = Some k \<longrightarrow> k < gs_edges_count s'"
  proof (intro allI impI)
    fix x k assume "gs_edge2key s' x = Some k"
    then have "k = ?E \<or> gs_edge2key s x = Some k" by (simp add: e2k split: if_splits)
    then show "k < gs_edges_count s'" using keys[of x k] by (auto simp: ec)
  qed
  have k2: "\<forall>e1 e2 k. gs_edge2key s' e1 = Some k \<longrightarrow> gs_edge2key s' e2 = Some k \<longrightarrow> e1 = e2"
  proof (intro allI impI)
    fix e1 e2 k assume a: "gs_edge2key s' e1 = Some k" "gs_edge2key s' e2 = Some k"
    show "e1 = e2"
    proof (cases "e1 = edge")
      case True
      then have k: "k = ?E" using a(1) by (simp add: e2k)
      show ?thesis
      proof (rule ccontr)
        assume "e1 \<noteq> e2"
        then have "gs_edge2key s e2 = Some ?E" using a(2) True k by (simp add: e2k)
        then show False using keys[of e2 ?E] by simp
      qed
    next
      case False
      then have 1: "gs_edge2key s e1 = Some k" using a(1) by (simp add: e2k)
      then have "k < ?E" using keys by blast
      then have "e2 \<noteq> edge" using a(2) by (auto simp: e2k)
      then have "gs_edge2key s e2 = Some k" using a(2) by (simp add: e2k)
      then show ?thesis using inj 1 by blast
    qed
  qed
  have p': "\<forall>e < gs_edges_count s'. length (gs_edge_nb s' ! e) = 6 \<and> length (gs_sides s' ! e) = 6 \<and> gs_nb_count s' ! e \<le> 6 \<and>
         (\<forall>j < 6.
            (j < gs_nb_count s' ! e \<longrightarrow>
               (\<exists>n p. n < gs_edges_count s' \<and> p < gs_nb_count s' ! n \<and>
                  gs_edge_nb s' ! e ! j = int n \<and> gs_sides s' ! e ! j = int p \<and>
                  gs_edge_nb s' ! n ! p = int e)) \<and>
            (gs_nb_count s' ! e \<le> j \<longrightarrow> gs_edge_nb s' ! e ! j = -1))"
  proof (intro allI impI conjI)
    fix e assume "e < gs_edges_count s'"
    then have c: "e < ?E \<or> e = ?E" by (auto simp: ec)
    show "length (gs_edge_nb s' ! e) = 6" using c same[of e] rows[of e] last by auto
    show "length (gs_sides s' ! e) = 6" using c same[of e] rows[of e] last by auto
    show "gs_nb_count s' ! e \<le> 6" using c same[of e] rows[of e] last by auto
    fix j :: nat assume j: "j < 6"
    {
      assume jl: "j < gs_nb_count s' ! e"
      then have e: "e < ?E" using c last by auto
      then have "j < gs_nb_count s ! e" using jl same[of e] by simp
      from old[OF e j this] obtain n p where np: "n < ?E" "p < gs_nb_count s ! n"
        "gs_edge_nb s ! e ! j = int n" "gs_sides s ! e ! j = int p" "gs_edge_nb s ! n ! p = int e"
        by blast
      have "n < gs_edges_count s' \<and> p < gs_nb_count s' ! n \<and>
                  gs_edge_nb s' ! e ! j = int n \<and> gs_sides s' ! e ! j = int p \<and>
                  gs_edge_nb s' ! n ! p = int e"
        using np same[OF e] same[OF np(1)] by (simp add: ec)
      then show "\<exists>n p. n < gs_edges_count s' \<and> p < gs_nb_count s' ! n \<and>
                  gs_edge_nb s' ! e ! j = int n \<and> gs_sides s' ! e ! j = int p \<and>
                  gs_edge_nb s' ! n ! p = int e" by blast
    }
    {
      assume jl: "gs_nb_count s' ! e \<le> j"
      show "gs_edge_nb s' ! e ! j = -1"
      proof (cases "e < ?E")
        case True
        then show ?thesis using tail[OF True j] jl same[OF True] by simp
      next
        case False
        then have "e = ?E" using c by simp
        then show ?thesis using last minus_ones_nth[OF j] by simp
      qed
    }
  qed
  have l': "length (gs_edge_nb s') = gs_edges_count s'" "length (gs_sides s') = gs_edges_count s'"
    "length (gs_nb_count s') = gs_edges_count s'"
    using len by (simp_all add: nb sd cnt ec)
  show ?thesis
    unfolding gemm_inv_def using k1 k2 p' l' by blast
qed


lemma register_edge_inv:
  assumes inv: "gemm_inv s" and r: "register_edge s edge = Inr s'"
  shows "gemm_inv s' \<and> gs_edge2key s' edge \<noteq> None \<and>
     (\<forall>x k. gs_edge2key s x = Some k \<longrightarrow> gs_edge2key s' x = Some k)"
proof (cases "gs_edge2key s edge")
  case (Some k)
  then have "s' = s" using r by (simp add: register_edge_def)
  then show ?thesis using inv Some by simp
next
  case None
  from register_edge_new[OF None r] obtain ve2 where s': "s' = s\<lparr>gs_edge2key := (gs_edge2key s)(edge \<mapsto> gs_edges_count s),
                   gs_edges := gs_edges s @ [edge],
                   gs_edge_nb := gs_edge_nb s @ [[-1, -1, -1, -1, -1, -1]],
                   gs_sides := gs_sides s @ [[-1, -1, -1, -1, -1, -1]],
                   gs_ve := ve2,
                   gs_nb_count := gs_nb_count s @ [0],
                   gs_edges_count := gs_edges_count s + 1\<rparr>" by blast
  have f: "gs_edge2key s' = (gs_edge2key s)(edge \<mapsto> gs_edges_count s)"
    "gs_edge_nb s' = gs_edge_nb s @ [[-1, -1, -1, -1, -1, -1]]"
    "gs_sides s' = gs_sides s @ [[-1, -1, -1, -1, -1, -1]]"
    "gs_nb_count s' = gs_nb_count s @ [0]"
    "gs_edges_count s' = gs_edges_count s + 1"
    by (simp_all add: s')
  have "gemm_inv s'" by (rule gemm_inv_append[OF inv None f])
  moreover have "gs_edge2key s' edge \<noteq> None" by (simp add: f(1))
  moreover have "\<forall>x k. gs_edge2key s x = Some k \<longrightarrow> gs_edge2key s' x = Some k"
    using None by (auto simp: f(1))
  ultimately show ?thesis by blast
qed

lemma register_loop_inv:
  "gemm_inv s \<Longrightarrow> loopE register_edge es s = Inr s' \<Longrightarrow>
     gemm_inv s' \<and> (\<forall>x\<in>set es. gs_edge2key s' x \<noteq> None) \<and>
     (\<forall>x k. gs_edge2key s x = Some k \<longrightarrow> gs_edge2key s' x = Some k)"
proof (induction es arbitrary: s)
  case Nil
  then show ?case by simp
next
  case (Cons a es)
  from Cons.prems(2) have "bindE (register_edge s a) (loopE register_edge es) = Inr s'" by simp
  then obtain s1 where s1: "register_edge s a = Inr s1" "loopE register_edge es s1 = Inr s'"
    by (rule bindE_InrE)
  from register_edge_inv[OF Cons.prems(1) s1(1)]
  have r: "gemm_inv s1" "gs_edge2key s1 a \<noteq> None"
    "\<forall>x k. gs_edge2key s x = Some k \<longrightarrow> gs_edge2key s1 x = Some k" by blast+
  from Cons.IH[OF r(1) s1(2)] have ih: "gemm_inv s'" "\<forall>x\<in>set es. gs_edge2key s' x \<noteq> None"
    "\<forall>x k. gs_edge2key s1 x = Some k \<longrightarrow> gs_edge2key s' x = Some k" by blast+
  have "gs_edge2key s' a \<noteq> None"
  proof -
    obtain y where "gs_edge2key s1 a = Some y" using r(2) by blast
    then have "gs_edge2key s' a = Some y" using ih(3) by blast
    then show ?thesis by simp
  qed
  moreover have "\<forall>x k. gs_edge2key s x = Some k \<longrightarrow> gs_edge2key s' x = Some k"
    using r(3) ih(3) by blast
  ultimately show ?case using ih by simp
qed

definition face_ok :: "face \<Rightarrow> bool" where
  "face_ok f = distinct (map sorted_edge (cur_edges f))"

lemma build_gemm_face_inv:
  assumes inv: "gemm_inv s" and ok: "face_ok f" and r: "build_gemm_face s f = Inr s'"
  shows "gemm_inv s'"
proof -
  define fe where "fe = map sorted_edge (cur_edges f)"
  have lfe: "length fe = 4" by (cases f) (simp add: fe_def cur_edges_def)
  have dfe: "distinct fe" using ok by (simp add: face_ok_def fe_def)
  from r have "bindE (loopE register_edge fe s) (\<lambda>s1.
      bindE (loopE (fill_nb fe) [0, 1, 2, 3] s1) (loopE (fill_sides fe) [0, 1, 2, 3])) = Inr s'"
    unfolding build_gemm_face_def Let_def fe_def .
  then obtain s1 where s1: "loopE register_edge fe s = Inr s1"
    and r2: "bindE (loopE (fill_nb fe) [0, 1, 2, 3] s1) (loopE (fill_sides fe) [0, 1, 2, 3]) = Inr s'"
    by (rule bindE_InrE)
  from register_loop_inv[OF inv s1] have inv1: "gemm_inv s1" and has: "\<forall>x\<in>set fe. gs_edge2key s1 x \<noteq> None"
    by blast+
  define key where "key i = the (gs_edge2key s1 (fe ! i))" for i
  have keyi: "\<And>i. i < 4 \<Longrightarrow> gs_edge2key s1 (fe ! i) = Some (key i)"
    using has lfe by (auto simp: key_def)
  have lk: "\<forall>i<4. lookup_key s1 (fe ! i) = Inr ([key 0, key 1, key 2, key 3] ! i)"
    using keyi by (simp add: all_less_4 lookup_key_def)
  have inj: "\<And>e1 e2 k. gs_edge2key s1 e1 = Some k \<Longrightarrow> gs_edge2key s1 e2 = Some k \<Longrightarrow> e1 = e2"
    using inv1 unfolding gemm_inv_def by blast
  have kne: "\<And>i j. i < 4 \<Longrightarrow> j < 4 \<Longrightarrow> i \<noteq> j \<Longrightarrow> key i \<noteq> key j"
  proof
    fix i j :: nat assume ij: "i < 4" "j < 4" "i \<noteq> j" "key i = key j"
    then have "fe ! i = fe ! j" using inj[OF keyi[of i]] keyi[of j] by simp
    then show False using dfe lfe ij by (simp add: nth_eq_iff_index_eq)
  qed
  have d: "distinct [key 0, key 1, key 2, key 3]"
    using kne[of 0 1] kne[of 0 2] kne[of 0 3] kne[of 1 2] kne[of 1 3] kne[of 2 3] by simp
  have kb: "\<And>i. i < 4 \<Longrightarrow> key i < gs_edges_count s1"
    using inv1 keyi unfolding gemm_inv_def by blast
  have len: "length (gs_edge_nb s1) = gs_edges_count s1" "length (gs_sides s1) = gs_edges_count s1"
    "length (gs_nb_count s1) = gs_edges_count s1"
    using inv1 by (simp_all add: gemm_inv_def)
  have rows: "\<forall>e < length (gs_edge_nb s1). length (gs_edge_nb s1 ! e) = 6 \<and> length (gs_sides s1 ! e) = 6"
    using inv1 by (simp add: gemm_inv_def)
  have b: "key 0 < length (gs_edge_nb s1)" "key 1 < length (gs_edge_nb s1)"
    "key 2 < length (gs_edge_nb s1)" "key 3 < length (gs_edge_nb s1)"
    using kb len by simp_all
  have len2: "length (gs_nb_count s1) = length (gs_edge_nb s1)" "length (gs_sides s1) = length (gs_edge_nb s1)"
    using len by simp_all
  note F = face_fill_loops[OF lk d b len2 rows]
  have c: "gs_nb_count s1 ! key 0 \<le> 3 \<and> gs_nb_count s1 ! key 1 \<le> 3 \<and>
           gs_nb_count s1 ! key 2 \<le> 3 \<and> gs_nb_count s1 ! key 3 \<le> 3"
    using r2 unfolding F by (simp split: if_splits)
  then have "s' = fill_face s1 (key 0) (key 1) (key 2) (key 3)"
    using r2 unfolding F by simp
  then show ?thesis
    using fill_face_inv[OF inv1 d] kb c by simp
qed

lemma build_gemm_loop_inv:
  "gemm_inv s \<Longrightarrow> list_all face_ok faces \<Longrightarrow> loopE build_gemm_face faces s = Inr s' \<Longrightarrow> gemm_inv s'"
proof (induction faces arbitrary: s)
  case Nil
  then show ?case by simp
next
  case (Cons f faces)
  from Cons.prems(3) have "bindE (build_gemm_face s f) (loopE build_gemm_face faces) = Inr s'" by simp
  then obtain s1 where s1: "build_gemm_face s f = Inr s1" "loopE build_gemm_face faces s1 = Inr s'"
    by (rule bindE_InrE)
  have "gemm_inv s1" using build_gemm_face_inv[OF Cons.prems(1) _ s1(1)] Cons.prems(2) by simp
  then show ?case using Cons.IH[OF _ _ s1(2)] Cons.prems(2) by simp
qed


lemma np_get2_int:
  "e < length a \<Longrightarrow> k < length (a ! e) \<Longrightarrow> np_get2 a (int e) (int k) = Inr (a ! e ! k)"
  by (simp add: np_get2_def)

lemma gemm_inv_slot:
  assumes inv: "gemm_inv s" and e: "e < gs_edges_count s" and k: "k < 6"
  shows "back_pointer_slot (mesh_of s) (int e) (int k)"
proof -
  let ?nb = "gs_edge_nb s" and ?sd = "gs_sides s" and ?cnt = "gs_nb_count s"
  have len: "length ?nb = gs_edges_count s" "length ?sd = gs_edges_count s"
    using inv by (simp_all add: gemm_inv_def)
  have rows: "\<And>e. e < gs_edges_count s \<Longrightarrow> length (?nb ! e) = 6 \<and> length (?sd ! e) = 6 \<and> ?cnt ! e \<le> 6"
    using inv unfolding gemm_inv_def by blast
  have g1: "np_get2 ?nb (int e) (int k) = Inr (?nb ! e ! k)"
    using np_get2_int[of e ?nb k] e k len rows[OF e] by simp
  have g2: "np_get2 ?sd (int e) (int k) = Inr (?sd ! e ! k)"
    using np_get2_int[of e ?sd k] e k len rows[OF e] by simp
  show ?thesis
  proof (cases "k < ?cnt ! e")
    case True
    then obtain n p where np: "n < gs_edges_count s" "p < ?cnt ! n" "?nb ! e ! k = int n"
      "?sd ! e ! k = int p" "?nb ! n ! p = int e"
      using inv e k unfolding gemm_inv_def by blast
    have "p < 6" using np(2) rows[OF np(1)] by simp
    then have "np_get2 ?nb (int n) (int p) = Inr (int e)"
      using np_get2_int[of n ?nb p] np len rows[OF np(1)] by simp
    then show ?thesis
      using g1 g2 np by (simp add: back_pointer_slot_def mesh_of_def)
  next
    case False
    then have "?nb ! e ! k = -1" using inv e k unfolding gemm_inv_def by simp
    then show ?thesis using g1 by (simp add: back_pointer_slot_def mesh_of_def)
  qed
qed

lemma gemm_inv_back_pointers:
  assumes inv: "gemm_inv s" and e: "e < gs_edges_count s"
  shows "back_pointers_hold (mesh_of s) (int e)"
  using gemm_inv_slot[OF inv e, of 0] gemm_inv_slot[OF inv e, of 1] gemm_inv_slot[OF inv e, of 2]
    gemm_inv_slot[OF inv e, of 3] gemm_inv_slot[OF inv e, of 4] gemm_inv_slot[OF inv e, of 5]
  by (simp add: back_pointers_hold_def)


subsection \<open>Two example meshes\<close>

text \<open>
  Two quads that share the edge \<open>(1, 2)\<close>, and a single degenerate face \<open>0 1 2 1\<close> whose
  first and last edge, and second and third edge, are the same undirected edge.
\<close>

definition two_quads :: "face list" where
  "two_quads = [(0, 1, 2, 3), (1, 4, 5, 2)]"

definition two_quads_mesh :: mesh where
  "two_quads_mesh =
     \<lparr>edges = [(0, 1), (1, 2), (2, 3), (0, 3), (1, 4), (4, 5), (2, 5)],
      gemm_edges =
          [[1, 2, 3, - 1, - 1, - 1], [2, 3, 0, 4, 5, 6],
           [3, 0, 1, - 1, - 1, - 1], [0, 1, 2, - 1, - 1, - 1],
           [5, 6, 1, - 1, - 1, - 1], [6, 1, 4, - 1, - 1, - 1],
           [1, 4, 5, - 1, - 1, - 1]],
      sides =
          [[2, 1, 0, - 1, - 1, - 1], [2, 1, 0, 2, 1, 0],
           [2, 1, 0, - 1, - 1, - 1], [2, 1, 0, - 1, - 1, - 1],
           [2, 1, 3, - 1, - 1, - 1], [2, 4, 0, - 1, - 1, - 1],
           [5, 1, 0, - 1, - 1, - 1]],
      ve = [[0, 3], [0, 1, 4], [1, 2, 6], [2, 3], [4, 5], [5, 6]],
      edges_count = 7\<rparr>"

definition degenerate_mesh :: mesh where
  "degenerate_mesh =
     \<lparr>edges = [(0, 1), (1, 2)],
      gemm_edges = [[1, 1, 0, 0, 1, 1], [1, 0, 0, 0, 0, 1]],
      sides = [[- 1, - 1, - 1, 5, 4, 3], [- 1, - 1, - 1, 5, 4, 3]],
      ve = [[0], [0, 1], [1]], edges_count = 2\<rparr>"






section \<open>Checks on a candidate edge\<close>

text \<open>\<^verbatim>\<open>__get_face_info\<close>: the twelve values it returns.\<close>

record face_info =
  key_a :: int
  key_b :: int
  key_c :: int
  side_a :: int
  side_b :: int
  side_c :: int
  other_side_a :: int
  other_side_b :: int
  other_side_c :: int
  other_keys_a :: "int list"
  other_keys_b :: "int list"
  other_keys_c :: "int list"

text \<open>\<open>(side - (side % 3) + 3) % 6\<close>; Python's \<open>%\<close> with a positive divisor is \<open>mod\<close>.\<close>

definition other_side :: "int \<Rightarrow> int" where
  "other_side s = (s - (s mod 3) + 3) mod 6"

definition other_keys :: "mesh \<Rightarrow> int \<Rightarrow> int \<Rightarrow> error + int list" where
  "other_keys m key os =
     bindE (np_get2 (gemm_edges m) key os) (\<lambda>x.
     bindE (np_get2 (gemm_edges m) key (os + 1)) (\<lambda>y.
     bindE (np_get2 (gemm_edges m) key (os + 2)) (\<lambda>z. Inr [x, y, z])))"

definition get_face_info :: "mesh \<Rightarrow> int \<Rightarrow> int \<Rightarrow> error + face_info" where
  "get_face_info m edge_id side =
     bindE (np_get2 (gemm_edges m) edge_id side) (\<lambda>ka.
     bindE (np_get2 (gemm_edges m) edge_id (side + 1)) (\<lambda>kb.
     bindE (np_get2 (gemm_edges m) edge_id (side + 2)) (\<lambda>kc.
     bindE (np_get2 (sides m) edge_id side) (\<lambda>sa.
     bindE (np_get2 (sides m) edge_id (side + 1)) (\<lambda>sb.
     bindE (np_get2 (sides m) edge_id (side + 2)) (\<lambda>sc.
     bindE (other_keys m ka (other_side sa)) (\<lambda>oa.
     bindE (other_keys m kb (other_side sb)) (\<lambda>ob.
     bindE (other_keys m kc (other_side sc)) (\<lambda>oc.
       Inr \<lparr>key_a = ka, key_b = kb, key_c = kc, side_a = sa, side_b = sb, side_c = sc,
            other_side_a = other_side sa, other_side_b = other_side sb,
            other_side_c = other_side sc,
            other_keys_a = oa, other_keys_b = ob, other_keys_c = oc\<rparr>)))))))))"

text \<open>
  \<^verbatim>\<open>__clean_side\<close>, with the pooling target \<open>self.__out_target\<close> as a parameter.  The
  \<open>assert (False)\<close> of the last branch raises AssertionError.
\<close>

definition clean_side :: "int \<Rightarrow> mesh \<Rightarrow> int \<Rightarrow> int \<Rightarrow> error + bool" where
  "clean_side out_target m edge_id side =
     (if edges_count m \<le> out_target then Inr False
      else bindE (get_face_info m edge_id side) (\<lambda>info.
        let shared_items_ab = get_shared_items (other_keys_a info) (other_keys_b info);
            shared_items_ac = get_shared_items (other_keys_a info) (other_keys_c info);
            shared_items_bc = get_shared_items (other_keys_b info) (other_keys_c info)
        in if length shared_items_ab \<le> 2 \<and> length shared_items_ac \<le> 2
              \<and> length shared_items_bc \<le> 2
           then Inr True
           else Inl AssertionError))"

text \<open>\<^verbatim>\<open>has_boundaries\<close>: the loop over the row of the edge, leaving at the first hit.\<close>

fun has_boundaries_loop :: "mesh \<Rightarrow> int list \<Rightarrow> error + bool" where
  "has_boundaries_loop m [] = Inr False"
| "has_boundaries_loop m (edge # rest) =
     (if edge = -1 then Inr True
      else bindE (py_get (gemm_edges m) edge) (\<lambda>row.
        if -1 \<in> set row then Inr True else has_boundaries_loop m rest))"

definition has_boundaries :: "mesh \<Rightarrow> int \<Rightarrow> error + bool" where
  "has_boundaries m edge_id = bindE (py_get (gemm_edges m) edge_id) (has_boundaries_loop m)"

text \<open>
  \<open>set(mesh.edges[idx].reshape(-1))\<close> for a list \<open>idx\<close> of edge ids, and \<^verbatim>\<open>__get_v_n\<close>.
\<close>

definition edge_vertices :: "mesh \<Rightarrow> int list \<Rightarrow> error + int set" where
  "edge_vertices m idx =
     bindE (mapE (py_get (edges m)) idx) (\<lambda>rows.
       Inr (set (concat (map (\<lambda>r. [fst r, snd r]) rows))))"

definition get_v_n :: "mesh \<Rightarrow> int \<Rightarrow> error + (int set \<times> int set)" where
  "get_v_n m edge_id =
     bindE (py_get (edges m) edge_id) (\<lambda>r.
     bindE (py_get (ve m) (fst r)) (\<lambda>e0.
     bindE (edge_vertices m e0) (\<lambda>s0.
     bindE (py_get (ve m) (snd r)) (\<lambda>e1.
     bindE (edge_vertices m e1) (\<lambda>s1. Inr (s0, s1))))))"

text \<open>\<^verbatim>\<open>__is_one_ring_valid\<close>: the body of its two loops, and the function.\<close>

definition one_ring_step :: "mesh \<Rightarrow> int \<Rightarrow> int set \<Rightarrow> int \<Rightarrow> error + int set" where
  "one_ring_step m edge_id v_a e =
     (if e \<noteq> edge_id
      then bindE (get_v_n m e) (\<lambda>p. Inr ((fst p \<union> snd p) \<union> v_a))
      else Inr v_a)"

definition is_one_ring_valid :: "mesh \<Rightarrow> int \<Rightarrow> error + bool" where
  "is_one_ring_valid m edge_id =
     bindE (py_get (edges m) edge_id) (\<lambda>r.
     bindE (py_get (ve m) (fst r)) (\<lambda>e_a.
     bindE (py_get (ve m) (snd r)) (\<lambda>e_b.
     bindE (loopE (one_ring_step m edge_id) e_a {}) (\<lambda>v_a.
     bindE (loopE (one_ring_step m edge_id) e_b {}) (\<lambda>v_b.
       Inr (card (v_a \<inter> (v_b - {fst r, snd r})) = 4))))))"


subsection \<open>Example meshes\<close>

text \<open>
  The closed cube, as \<^verbatim>\<open>build_gemm\<close> builds it, and the cube whose bottom face is split
  into two quads that meet in the extra vertex 8 (a vertex with two edges).
\<close>

definition cube_mesh :: mesh where
  "cube_mesh =
     \<lparr>edges = [(0, 1), (1, 2), (2, 3), (0, 3), (4, 7), (6, 7), (5, 6), (4, 5),
               (0, 4), (1, 5), (2, 6), (3, 7)],
      gemm_edges =
          [[1, 2, 3, 8, 7, 9], [2, 3, 0, 9, 6, 10], [3, 0, 1, 10, 5, 11],
           [0, 1, 2, 11, 4, 8], [5, 6, 7, 8, 3, 11], [6, 7, 4, 11, 2, 10],
           [7, 4, 5, 10, 1, 9], [4, 5, 6, 9, 0, 8], [7, 9, 0, 3, 11, 4],
           [0, 8, 7, 6, 10, 1], [1, 9, 6, 5, 11, 2], [2, 10, 5, 4, 8, 3]],
      sides =
          [[2, 1, 0, 2, 4, 0], [2, 1, 0, 5, 4, 0], [2, 1, 0, 5, 4, 0],
           [2, 1, 0, 5, 4, 3], [2, 1, 0, 5, 4, 3], [2, 1, 0, 2, 4, 3],
           [2, 1, 0, 2, 4, 3], [2, 1, 0, 2, 4, 0], [5, 1, 3, 5, 4, 3],
           [5, 1, 3, 5, 1, 3], [5, 4, 3, 5, 1, 3], [5, 4, 3, 5, 4, 3]],
      ve = [[0, 3, 8], [0, 1, 9], [1, 2, 10], [2, 3, 11], [4, 7, 8],
            [6, 7, 9], [5, 6, 10], [4, 5, 11]],
      edges_count = 12\<rparr>"

definition doublet_mesh :: mesh where
  "doublet_mesh =
     \<lparr>edges = [(0, 1), (1, 2), (2, 8), (0, 8), (2, 3), (0, 3), (4, 7), (6, 7),
               (5, 6), (4, 5), (0, 4), (1, 5), (2, 6), (3, 7)],
      gemm_edges =
          [[1, 2, 3, 10, 9, 11], [2, 3, 0, 11, 8, 12], [3, 0, 1, 4, 5, 3],
           [0, 1, 2, 2, 4, 5], [5, 3, 2, 12, 7, 13], [3, 2, 4, 13, 6, 10],
           [7, 8, 9, 10, 5, 13], [8, 9, 6, 13, 4, 12], [9, 6, 7, 12, 1, 11],
           [6, 7, 8, 11, 0, 10], [9, 11, 0, 5, 13, 6], [0, 10, 9, 8, 12, 1],
           [1, 11, 8, 7, 13, 4], [4, 12, 7, 6, 10, 5]],
      sides =
          [[2, 1, 0, 2, 4, 0], [2, 1, 0, 5, 4, 0], [2, 1, 0, 2, 1, 3],
           [2, 1, 0, 5, 1, 0], [2, 4, 3, 5, 4, 0], [5, 4, 0, 5, 4, 3],
           [2, 1, 0, 5, 4, 3], [2, 1, 0, 2, 4, 3], [2, 1, 0, 2, 4, 3],
           [2, 1, 0, 2, 4, 0], [5, 1, 3, 5, 4, 3], [5, 1, 3, 5, 1, 3],
           [5, 4, 3, 5, 1, 3], [5, 4, 3, 5, 4, 3]],
      ve = [[0, 3, 5, 10], [0, 1, 11], [1, 2, 4, 12], [4, 5, 13],
            [6, 9, 10], [8, 9, 11], [7, 8, 12], [6, 7, 13], [2, 3]],
      edges_count = 14\<rparr>"

lemma cube_built: "build_gemm 8 [(0,1,2,3),(4,7,6,5),(0,4,5,1),(1,5,6,2),(2,6,7,3),(3,7,4,0)] = Inr cube_mesh"
  by code_simp

lemma doublet_built: "build_gemm 9 [(0,1,2,8),(0,8,2,3),(4,7,6,5),(0,4,5,1),(1,5,6,2),(2,6,7,3),(3,7,4,0)] = Inr doublet_mesh"
  by code_simp


subsection \<open>The side check\<close>

lemma matching_pairs_distinct:
  assumes "distinct xs" and "distinct ys"
  shows "card (matching_pairs xs ys) = card (set xs \<inter> set ys)"
proof -
  have "bij_betw (\<lambda>p. xs ! fst p) (matching_pairs xs ys) (set xs \<inter> set ys)"
    unfolding bij_betw_def
  proof
    show "inj_on (\<lambda>p. xs ! fst p) (matching_pairs xs ys)"
    proof (rule inj_onI)
      fix p q assume p: "p \<in> matching_pairs xs ys" and q: "q \<in> matching_pairs xs ys"
        and e: "xs ! fst p = xs ! fst q"
      have pl: "fst p < length xs" "snd p < length ys" "xs ! fst p = ys ! snd p"
        using p by (auto simp: matching_pairs_def)
      have ql: "fst q < length xs" "snd q < length ys" "xs ! fst q = ys ! snd q"
        using q by (auto simp: matching_pairs_def)
      have 1: "fst p = fst q"
        using nth_eq_iff_index_eq[OF assms(1) pl(1) ql(1)] e by simp
      have "ys ! snd p = ys ! snd q"
        using pl(3) ql(3) e by simp
      then have "snd p = snd q"
        using nth_eq_iff_index_eq[OF assms(2) pl(2) ql(2)] by simp
      with 1 show "p = q" by (simp add: prod_eq_iff)
    qed
    show "(\<lambda>p. xs ! fst p) ` matching_pairs xs ys = set xs \<inter> set ys"
      by (auto simp: matching_pairs_def in_set_conv_nth image_iff) (metis nth_mem)+
  qed
  then show ?thesis by (rule bij_betw_same_card)
qed


text \<open>The condition of the claim as the specification words it.\<close>

definition share_at_most_2 :: "int list \<Rightarrow> int list \<Rightarrow> bool" where
  "share_at_most_2 xs ys = (card (set xs \<inter> set ys) \<le> 2)"

definition triples_share_at_most_2 :: "mesh \<Rightarrow> int \<Rightarrow> int \<Rightarrow> bool" where
  "triples_share_at_most_2 m edge_id side =
     (case get_face_info m edge_id side of
        Inl _ \<Rightarrow> False
      | Inr info \<Rightarrow>
          share_at_most_2 (other_keys_a info) (other_keys_b info) \<and>
          share_at_most_2 (other_keys_a info) (other_keys_c info) \<and>
          share_at_most_2 (other_keys_b info) (other_keys_c info))"






subsection \<open>The one-ring check\<close>

text \<open>The sets the one-ring check is about, written as sets.\<close>

definition incident_edges :: "mesh \<Rightarrow> int \<Rightarrow> int set" where
  "incident_edges m v = (case py_get (ve m) v of Inl _ \<Rightarrow> {} | Inr l \<Rightarrow> set l)"

definition end_points :: "mesh \<Rightarrow> int \<Rightarrow> int set" where
  "end_points m e = (case py_get (edges m) e of Inl _ \<Rightarrow> {} | Inr r \<Rightarrow> {fst r, snd r})"

definition around :: "mesh \<Rightarrow> int \<Rightarrow> int set" where
  "around m e = (\<Union>p \<in> end_points m e. \<Union>e2 \<in> incident_edges m p. end_points m e2)"

definition gathered :: "mesh \<Rightarrow> int \<Rightarrow> int \<Rightarrow> int set" where
  "gathered m edge_id v = (\<Union>e \<in> incident_edges m v - {edge_id}. around m e)"

definition shared_ring :: "mesh \<Rightarrow> int \<Rightarrow> int set" where
  "shared_ring m edge_id =
     (\<Union>r \<in> (case py_get (edges m) edge_id of Inl _ \<Rightarrow> {} | Inr r \<Rightarrow> {r}).
        (gathered m edge_id (fst r) \<inter> gathered m edge_id (snd r)) - {fst r, snd r})"

lemma mapE_Inr:
  "mapE f xs = Inr ys \<Longrightarrow> length ys = length xs \<and> (\<forall>i < length xs. f (xs ! i) = Inr (ys ! i))"
proof (induction xs arbitrary: ys)
  case Nil
  then show ?case by simp
next
  case (Cons x xs)
  from Cons.prems obtain y ys' where y: "f x = Inr y" "mapE f xs = Inr ys'" "ys = y # ys'"
    by (auto simp: bindE_eq_Inr)
  from Cons.IH[OF y(2)] y show ?case by (auto simp: nth_Cons split: nat.splits)
qed

lemma mapE_end_points:
  "mapE (py_get (edges m)) idx = Inr rows \<Longrightarrow>
     (\<Union>r \<in> set rows. {fst r, snd r}) = (\<Union>e \<in> set idx. end_points m e)"
proof (induction idx arbitrary: rows)
  case Nil
  then show ?case by simp
next
  case (Cons x xs)
  from Cons.prems obtain y ys where y: "py_get (edges m) x = Inr y"
    "mapE (py_get (edges m)) xs = Inr ys" "rows = y # ys"
    by (auto simp: bindE_eq_Inr)
  have "end_points m x = {fst y, snd y}" using y(1) by (simp add: end_points_def)
  with Cons.IH[OF y(2)] y(3) show ?case by simp
qed

lemma edge_vertices_Inr:
  assumes "edge_vertices m idx = Inr S"
  shows "S = (\<Union>e \<in> set idx. end_points m e)"
proof -
  from assms obtain rows where r: "mapE (py_get (edges m)) idx = Inr rows"
    and S: "S = set (concat (map (\<lambda>r. [fst r, snd r]) rows))"
    by (auto simp: edge_vertices_def bindE_eq_Inr)
  have "S = (\<Union>r \<in> set rows. {fst r, snd r})" using S by auto
  then show ?thesis using mapE_end_points[OF r] by simp
qed

lemma get_v_n_Inr:
  assumes "get_v_n m e = Inr p"
  shows "fst p \<union> snd p = around m e"
proof -
  from assms obtain r e0 s0 e1 s1 where
    r: "py_get (edges m) e = Inr r" and e0: "py_get (ve m) (fst r) = Inr e0"
    and s0: "edge_vertices m e0 = Inr s0" and e1: "py_get (ve m) (snd r) = Inr e1"
    and s1: "edge_vertices m e1 = Inr s1" and p: "p = (s0, s1)"
    by (auto simp: get_v_n_def bindE_eq_Inr)
  have "around m e = (\<Union>e2 \<in> set e0. end_points m e2) \<union> (\<Union>e2 \<in> set e1. end_points m e2)"
    using r e0 e1 by (simp add: around_def end_points_def incident_edges_def Un_commute)
  then show ?thesis
    using edge_vertices_Inr[OF s0] edge_vertices_Inr[OF s1] p by simp
qed

lemma one_ring_loop_Inr:
  "loopE (one_ring_step m edge_id) es V0 = Inr V \<Longrightarrow>
     V = V0 \<union> (\<Union>e \<in> set es - {edge_id}. around m e)"
proof (induction es arbitrary: V0)
  case Nil
  then show ?case by simp
next
  case (Cons e es)
  from Cons.prems obtain V1 where 1: "one_ring_step m edge_id V0 e = Inr V1"
    and 2: "loopE (one_ring_step m edge_id) es V1 = Inr V"
    by (auto simp: bindE_eq_Inr)
  have "V1 = V0 \<union> (if e = edge_id then {} else around m e)"
    using 1 get_v_n_Inr[of m e] by (auto simp: one_ring_step_def bindE_eq_Inr split: if_splits)
  with Cons.IH[OF 2] show ?case by auto
qed


text \<open>
  Claim C9.  When \<^verbatim>\<open>__is_one_ring_valid\<close> returns, it returns True exactly when four
  vertices remain after gathering, for each endpoint of the edge, the vertices that
  \<^verbatim>\<open>__get_v_n\<close> yields for the other edges at that endpoint, intersecting the two sets and
  removing the edge's own endpoints.
\<close>

theorem is_one_ring_valid_iff:
  assumes "is_one_ring_valid m edge_id = Inr b"
  shows "b = (card (shared_ring m edge_id) = 4)"
proof -
  from assms obtain r e_a e_b v_a v_b where
    r: "py_get (edges m) edge_id = Inr r" and ea: "py_get (ve m) (fst r) = Inr e_a"
    and eb: "py_get (ve m) (snd r) = Inr e_b"
    and va: "loopE (one_ring_step m edge_id) e_a {} = Inr v_a"
    and vb: "loopE (one_ring_step m edge_id) e_b {} = Inr v_b"
    and b: "b = (card (v_a \<inter> (v_b - {fst r, snd r})) = 4)"
    by (auto simp: is_one_ring_valid_def bindE_eq_Inr)
  have "v_a = gathered m edge_id (fst r)"
    using one_ring_loop_Inr[OF va] ea by (simp add: gathered_def incident_edges_def)
  moreover have "v_b = gathered m edge_id (snd r)"
    using one_ring_loop_Inr[OF vb] eb by (simp add: gathered_def incident_edges_def)
  moreover have "shared_ring m edge_id =
      (gathered m edge_id (fst r) \<inter> gathered m edge_id (snd r)) - {fst r, snd r}"
    using r by (simp add: shared_ring_def)
  moreover have "v_a \<inter> (v_b - {fst r, snd r}) = (v_a \<inter> v_b) - {fst r, snd r}" by auto
  ultimately show ?thesis using b by simp
qed


theorem is_one_ring_valid_iff_witness:
  "is_one_ring_valid cube_mesh 0 = Inr True \<and> card (shared_ring cube_mesh 0) = 4"
proof -
  have v: "is_one_ring_valid cube_mesh 0 = Inr True" by code_simp
  from is_one_ring_valid_iff[OF v] v show ?thesis by simp
qed

section \<open>The pooling layer\<close>

subsection \<open>State and helpers\<close>

text \<open>
  What a pooling pass over one mesh mutates: the mesh, the array \<open>mask\<close> of live edges
  and the edge groups (a \<^verbatim>\<open>MeshUnion\<close>, whose class is not among the sources; its state
  is a value of a type parameter).
\<close>

record 'g pool_state =
  ps_mesh :: mesh
  ps_mask :: "bool list"
  ps_groups :: 'g

text \<open>
  \<^verbatim>\<open>mesh_pool.py\<close> calls functions of \<^verbatim>\<open>mesh_rotation_utils\<close>, methods of the class
  \<^verbatim>\<open>Mesh\<close> and methods of \<^verbatim>\<open>MeshUnion\<close>; none of the three files is among the sources.
  They are parameters of the model, collected in one record.  Each takes the objects
  the call passes and returns the objects it may have changed.  \<^verbatim>\<open>get_edge_hood_info\<close>
  and \<^verbatim>\<open>check_u_v_boundaries\<close> return values and no mesh: they are taken to read the
  mesh only.  The vertex and edge collections that are handed from one helper to the
  next without \<^verbatim>\<open>mesh_pool.py\<close> looking into them have the type parameter \<open>'h\<close>.
\<close>

record ('g, 'h, 'a) helpers =
  find_doublets :: "mesh \<Rightarrow> int list option \<Rightarrow> error + (int list \<times> int list list)"
  clear_doublet_pair :: "mesh \<Rightarrow> bool list \<Rightarrow> int list
      \<Rightarrow> error + ((int \<times> int) list \<times> (int \<times> int) list \<times> mesh \<times> bool list)"
  get_edge_hood_info :: "mesh \<Rightarrow> int \<Rightarrow> error + (int \<times> 'h \<times> 'h \<times> int \<times> 'h \<times> 'h)"
  check_u_v_boundaries :: "mesh \<Rightarrow> int \<Rightarrow> 'h \<Rightarrow> 'h \<Rightarrow> int \<Rightarrow> 'h \<Rightarrow> 'h
      \<Rightarrow> error + (bool \<times> int \<times> 'h \<times> 'h \<times> int \<times> 'h \<times> 'h)"
  edge_rotations :: "int \<Rightarrow> 'h \<Rightarrow> 'h \<Rightarrow> mesh
      \<Rightarrow> error + (mesh \<times> (int \<times> int list) list \<times> int list option)"
  fix_mesh_hood_order :: "mesh \<Rightarrow> int list \<Rightarrow> error + mesh"
  fix_mesh_sides :: "mesh \<Rightarrow> int list \<Rightarrow> error + mesh"
  mesh_remove_edge :: "mesh \<Rightarrow> int \<Rightarrow> error + mesh"
  mesh_merge_vertices :: "mesh \<Rightarrow> int \<Rightarrow> int \<Rightarrow> error + mesh"
  mesh_union_groups :: "mesh \<Rightarrow> int \<Rightarrow> int \<Rightarrow> error + mesh"
  mesh_remove_group :: "mesh \<Rightarrow> int \<Rightarrow> error + mesh"
  mesh_clean :: "mesh \<Rightarrow> bool list \<Rightarrow> 'g \<Rightarrow> error + mesh"
  groups_new :: "int \<Rightarrow> 'g"
  groups_union :: "'g \<Rightarrow> int \<Rightarrow> int \<Rightarrow> error + 'g"
  groups_union_groups :: "'g \<Rightarrow> (int \<times> int list) list \<Rightarrow> error + 'g"
  groups_remove_group :: "'g \<Rightarrow> int \<Rightarrow> error + 'g"
  groups_rebuild_features :: "'g \<Rightarrow> 'a list list \<Rightarrow> bool list \<Rightarrow> int \<Rightarrow> error + 'a list list"

text \<open>Python dictionaries with integer keys, in insertion order.\<close>

definition dict_get :: "(int \<times> 'v) list \<Rightarrow> int \<Rightarrow> error + 'v" where
  "dict_get d k = (case map_of d k of None \<Rightarrow> Inl KeyError | Some v \<Rightarrow> Inr v)"

fun dict_set :: "(int \<times> 'v) list \<Rightarrow> int \<Rightarrow> 'v \<Rightarrow> (int \<times> 'v) list" where
  "dict_set [] k v = [(k, v)]"
| "dict_set (p # d) k v = (if fst p = k then (k, v) # d else p # dict_set d k v)"

subsection \<open>Group bookkeeping and edge removal\<close>

text \<open>\<^verbatim>\<open>__union_groups\<close>, \<^verbatim>\<open>__remove_group\<close> and \<^verbatim>\<open>__union_groups_at_once\<close>.\<close>

definition union_groups :: "('g, 'h, 'a) helpers \<Rightarrow> 'g pool_state \<Rightarrow> int \<Rightarrow> int \<Rightarrow> error + 'g pool_state" where
  "union_groups X st source target =
     bindE (groups_union X (ps_groups st) source target) (\<lambda>g.
     bindE (mesh_union_groups X (ps_mesh st) source target) (\<lambda>m.
       Inr (st\<lparr>ps_groups := g, ps_mesh := m\<rparr>)))"

definition remove_group :: "('g, 'h, 'a) helpers \<Rightarrow> 'g pool_state \<Rightarrow> int \<Rightarrow> error + 'g pool_state" where
  "remove_group X st index =
     bindE (groups_remove_group X (ps_groups st) index) (\<lambda>g.
     bindE (mesh_remove_group X (ps_mesh st) index) (\<lambda>m.
       Inr (st\<lparr>ps_groups := g, ps_mesh := m\<rparr>)))"

text \<open>
  The inner loops of \<^verbatim>\<open>__union_groups_at_once\<close>; the test \<open>target is not source\<close> compares
  two integers and is modelled by their inequality.
\<close>

definition union_sources :: "('g, 'h, 'a) helpers \<Rightarrow> int \<Rightarrow> mesh \<Rightarrow> int \<Rightarrow> error + mesh" where
  "union_sources X target m source =
     (if target \<noteq> source then mesh_union_groups X m source target else Inr m)"

definition union_groups_at_once :: "('g, 'h, 'a) helpers \<Rightarrow> 'g pool_state \<Rightarrow> (int \<times> int list) list
    \<Rightarrow> error + 'g pool_state" where
  "union_groups_at_once X st targets_to_sources_dict =
     bindE (groups_union_groups X (ps_groups st) targets_to_sources_dict) (\<lambda>g.
     bindE (loopE (\<lambda>m p. loopE (union_sources X (fst p)) (snd p) m) targets_to_sources_dict (ps_mesh st)) (\<lambda>m.
       Inr (st\<lparr>ps_groups := g, ps_mesh := m\<rparr>)))"

text \<open>\<^verbatim>\<open>MeshPool.remove_edge\<close>\<close>

definition remove_edge :: "('g, 'h, 'a) helpers \<Rightarrow> 'g pool_state \<Rightarrow> int \<Rightarrow> error + 'g pool_state" where
  "remove_edge X st e =
     bindE (remove_group X st e) (\<lambda>st1.
     bindE (py_set (ps_mask st1) e False) (\<lambda>mask1.
     bindE (mesh_remove_edge X (ps_mesh st1) e) (\<lambda>m2.
     bindE (py_set (edges m2) e (-1, -1)) (\<lambda>edges3.
     bindE (py_set (gemm_edges m2) e [-1, -1, -1, -1, -1, -1]) (\<lambda>gemm3.
       Inr (st1\<lparr>ps_mask := mask1,
                ps_mesh := m2\<lparr>edges := edges3, edges_count := edges_count m2 - 1,
                              gemm_edges := gemm3\<rparr>\<rparr>))))))"

subsection \<open>Doublets\<close>

text \<open>The body of the loop over the doublet pairs in \<^verbatim>\<open>pool_doublets\<close>, and the function.\<close>

definition clear_pair :: "('g, 'h, 'a) helpers \<Rightarrow> 'g pool_state \<Rightarrow> int list \<Rightarrow> error + 'g pool_state" where
  "clear_pair X st pair =
     bindE (clear_doublet_pair X (ps_mesh st) (ps_mask st) pair) (\<lambda>(d1, d2, m1, mask1).
     bindE (loopE (\<lambda>s p. union_groups X s (fst p) (snd p)) d1 (st\<lparr>ps_mesh := m1, ps_mask := mask1\<rparr>)) (\<lambda>st2.
     bindE (loopE (\<lambda>s p. union_groups X s (fst p) (snd p)) d2 st2) (\<lambda>st3.
     loopE (remove_group X) pair st3)))"

definition pool_doublets :: "('g, 'h, 'a) helpers \<Rightarrow> 'g pool_state \<Rightarrow> int list option
    \<Rightarrow> error + (bool \<times> 'g pool_state)" where
  "pool_doublets X st vertices =
     bindE (find_doublets X (ps_mesh st) vertices) (\<lambda>(doublet_vertices, doublet_pairs_edges).
       if length doublet_vertices = 0 then Inr (False, st)
       else bindE (loopE (clear_pair X) doublet_pairs_edges st) (\<lambda>st'. Inr (True, st')))"

text \<open>
  \<^verbatim>\<open>pool_mesh_operations\<close> clears doublets until none is found.  Whether that loop ends
  depends on the helpers, so the function is partial: \<open>None\<close> stands for a loop that runs
  forever.
\<close>

partial_function (option) pool_mesh_operations ::
    "('g, 'h, 'a) helpers \<Rightarrow> 'g pool_state \<Rightarrow> (error + 'g pool_state) option" where
  "pool_mesh_operations X st =
     (case pool_doublets X st None of
        Inl e \<Rightarrow> Some (Inl e)
      | Inr r \<Rightarrow> if fst r then pool_mesh_operations X (snd r) else Some (Inr (snd r)))"

declare pool_mesh_operations.simps [code]


subsection \<open>The collapse\<close>

text \<open>
  The local variables of \<^verbatim>\<open>collapse_other_vertex_v\<close> that its first loop changes, next to
  the pooling state: the lists of edges to remove and to reconnect, the dictionary from
  a removed edge to the edge it is merged into, and the caller's dictionary
  \<open>new_features_combination_dict\<close>.
\<close>

record 'g collapse_state =
  cs_state :: "'g pool_state"
  e_to_collapse :: "int list"
  collapsed_e_to_orig_e_dict :: "(int \<times> int) list"
  e_to_reconnect_with_u :: "int list"
  new_features_combination_dict :: "(int \<times> int list) list"

text \<open>
  \<open>for key in new_features_combination_dict.keys(): if u_e in mesh.edges[key]: ... break\<close>:
  the first key whose edge has the vertex \<open>u_e\<close>, if any.
\<close>

fun first_key_with :: "mesh \<Rightarrow> int \<Rightarrow> int list \<Rightarrow> error + int option" where
  "first_key_with m u_e [] = Inr None"
| "first_key_with m u_e (key # keys) =
     bindE (py_get (edges m) key) (\<lambda>r.
       if u_e = fst r \<or> u_e = snd r then Inr (Some key) else first_key_with m u_e keys)"

text \<open>\<open>d[key].append(e)\<close>\<close>

definition dict_append :: "(int \<times> int list) list \<Rightarrow> int \<Rightarrow> int \<Rightarrow> (int \<times> int list) list" where
  "dict_append d key e = map (\<lambda>p. if fst p = key then (fst p, snd p @ [e]) else p) d"

text \<open>The branch of the first loop that moves an edge from \<open>v\<close> to \<open>u\<close>.\<close>

definition reconnect_edge :: "mesh \<Rightarrow> int \<Rightarrow> int \<Rightarrow> int \<Rightarrow> error + mesh" where
  "reconnect_edge m u v e =
     bindE (py_get (ve m) v) (\<lambda>lv.
       if e \<notin> set lv then Inl ValueError
       else
     bindE (py_set (ve m) v (remove1 e lv)) (\<lambda>ve1.
     bindE (py_get ve1 u) (\<lambda>lu.
     bindE (py_set ve1 u (lu @ [e])) (\<lambda>ve2.
     bindE (py_get (edges m) e) (\<lambda>r.
     bindE (py_set (edges m) e (if fst r = v then (u, snd r) else (fst r, u))) (\<lambda>edges1.
       Inr (m\<lparr>ve := ve2, edges := edges1\<rparr>)))))))"

definition classify_edge :: "('g, 'h, 'a) helpers \<Rightarrow> int \<Rightarrow> int \<Rightarrow> int list
    \<Rightarrow> 'g collapse_state \<Rightarrow> int \<Rightarrow> error + 'g collapse_state" where
  "classify_edge X u v diag_vertices c e =
     bindE (py_get (edges (ps_mesh (cs_state c))) e) (\<lambda>r.
       let u_e = (if fst r = v then snd r else fst r);
           v_e = (if fst r = v then v else snd r)
       in
       if u_e \<in> set diag_vertices \<or> v_e \<in> set diag_vertices then
         bindE (first_key_with (ps_mesh (cs_state c)) u_e (map fst (new_features_combination_dict c))) (\<lambda>found.
         bindE (remove_edge X (cs_state c) e) (\<lambda>st'.
           Inr (case found of
                  None \<Rightarrow> c\<lparr>cs_state := st', e_to_collapse := e_to_collapse c @ [e]\<rparr>
                | Some key \<Rightarrow>
                    c\<lparr>cs_state := st', e_to_collapse := e_to_collapse c @ [e],
                      new_features_combination_dict :=
                        dict_append (new_features_combination_dict c) key e,
                      collapsed_e_to_orig_e_dict :=
                        dict_set (collapsed_e_to_orig_e_dict c) e key\<rparr>)))
       else
         bindE (reconnect_edge (ps_mesh (cs_state c)) u v e) (\<lambda>m'.
           Inr (c\<lparr>cs_state := (cs_state c)\<lparr>ps_mesh := m'\<rparr>,
                  e_to_reconnect_with_u := e_to_reconnect_with_u c @ [e]\<rparr>)))"

text \<open>
  The second loop repairs the rows of the reconnected edges and of their neighbours.
  \<open>np.where(...)[0][0]\<close> is the first position of the removed edge in the old row.
\<close>

fun first_pos :: "int \<Rightarrow> int list \<Rightarrow> nat" where
  "first_pos x [] = 0"
| "first_pos x (h # hs) = (if h = x then 0 else Suc (first_pos x hs))"

definition replace_collapsed :: "(int \<times> int) list \<Rightarrow> int list \<Rightarrow> int list \<Rightarrow> int \<Rightarrow> error + int list" where
  "replace_collapsed c2o old_hood new_hood e_collapse =
     (if e_collapse \<in> set old_hood
      then bindE (dict_get c2o e_collapse) (\<lambda>k.
             if first_pos e_collapse old_hood < length new_hood
             then Inr (new_hood[first_pos e_collapse old_hood := k])
             else Inl IndexError)
      else Inr new_hood)"

definition fix_reconnected_edge :: "mesh \<Rightarrow> int list \<Rightarrow> (int \<times> int) list
    \<Rightarrow> mesh \<times> int list \<Rightarrow> int \<Rightarrow> error + (mesh \<times> int list)" where
  "fix_reconnected_edge old_mesh to_collapse c2o acc edge =
     (if edge \<in> set (snd acc) \<or> edge \<in> set to_collapse then Inr acc
      else
        bindE (py_get (gemm_edges old_mesh) edge) (\<lambda>old_hood.
        bindE (py_get (gemm_edges (fst acc)) edge) (\<lambda>new_hood.
        bindE (loopE (replace_collapsed c2o old_hood) to_collapse new_hood) (\<lambda>new_hood'.
        bindE (py_set (gemm_edges (fst acc)) edge new_hood') (\<lambda>g.
          Inr ((fst acc)\<lparr>gemm_edges := g\<rparr>, snd acc @ [edge]))))))"

definition fix_reconnected :: "mesh \<Rightarrow> int list \<Rightarrow> (int \<times> int) list
    \<Rightarrow> mesh \<times> int list \<Rightarrow> int \<Rightarrow> error + (mesh \<times> int list)" where
  "fix_reconnected old_mesh to_collapse c2o acc e =
     bindE (py_get (gemm_edges old_mesh) e) (\<lambda>hood.
       loopE (fix_reconnected_edge old_mesh to_collapse c2o) (e # hood) acc)"

text \<open>
  The third loop rebuilds the row of every edge that a removed edge was merged into.
  The rows have six entries; \<open>new_hood[0:3] = x\<close> and \<open>new_hood[3:6] = x\<close> replace one half.
\<close>

definition fix_rotated :: "mesh \<Rightarrow> (int \<times> int) list \<Rightarrow> mesh \<times> int list \<Rightarrow> int \<times> int
    \<Rightarrow> error + (mesh \<times> int list)" where
  "fix_rotated old_mesh c2o acc p =
     (let key = fst p; edge = snd p in
      bindE (py_get (gemm_edges old_mesh) edge) (\<lambda>old_hood.
      bindE (py_get (gemm_edges (fst acc)) edge) (\<lambda>new_hood.
      bindE
        (if key \<in> set (take 3 old_hood) then
           bindE (py_get (gemm_edges old_mesh) key) (\<lambda>key_hood.
             if edge \<notin> set (take 3 key_hood)
             then Inr (take 3 key_hood @ drop 3 new_hood)
             else Inr (take 3 (drop 3 key_hood) @ drop 3 new_hood))
         else if key \<in> set (take 3 (drop 3 old_hood)) then
           bindE (py_get (gemm_edges old_mesh) key) (\<lambda>key_hood.
             if edge \<notin> set (take 3 key_hood)
             then Inr (take 3 new_hood @ take 3 key_hood)
             else Inr (take 3 new_hood @ take 3 (drop 3 key_hood)))
         else Inl AssertionError)
        (\<lambda>new_hood'.
      bindE (py_set (gemm_edges (fst acc)) edge
               (map (\<lambda>e. case map_of c2o e of None \<Rightarrow> e | Some k \<Rightarrow> k) new_hood')) (\<lambda>g.
        Inr ((fst acc)\<lparr>gemm_edges := g\<rparr>, snd acc @ [edge]))))))"

text \<open>
  \<^verbatim>\<open>collapse_other_vertex_v\<close>.  It returns the state and the dictionary
  \<open>new_features_combination_dict\<close>, which its caller reads afterwards.
\<close>

definition collapse_other_vertex_v :: "('g, 'h, 'a) helpers \<Rightarrow> 'g pool_state \<Rightarrow> int \<Rightarrow> int \<Rightarrow> int list
    \<Rightarrow> int list \<Rightarrow> (int \<times> int list) list \<Rightarrow> error + ('g pool_state \<times> (int \<times> int list) list)" where
  "collapse_other_vertex_v X st u v e_v diag_vertices nfcd =
     bindE (pool_doublets X st (Some [v])) (\<lambda>r.
       if fst r then Inr (snd r, nfcd)
       else
         let st0 = snd r; old_mesh = ps_mesh st0 in
         bindE (loopE (classify_edge X u v diag_vertices) e_v
                  \<lparr>cs_state = st0, e_to_collapse = [], collapsed_e_to_orig_e_dict = [],
                   e_to_reconnect_with_u = [], new_features_combination_dict = nfcd\<rparr>) (\<lambda>c.
         bindE (loopE (fix_reconnected old_mesh (e_to_collapse c) (collapsed_e_to_orig_e_dict c))
                  (e_to_reconnect_with_u c) (ps_mesh (cs_state c), [])) (\<lambda>a2.
         bindE (loopE (fix_rotated old_mesh (collapsed_e_to_orig_e_dict c))
                  (collapsed_e_to_orig_e_dict c) a2) (\<lambda>a3.
         bindE (fix_mesh_hood_order X (fst a3) (snd a3)) (\<lambda>m4.
         bindE (fix_mesh_sides X m4 (snd a3)) (\<lambda>m5.
         bindE (mesh_merge_vertices X m5 u v) (\<lambda>m6.
           Inr ((cs_state c)\<lparr>ps_mesh := m6\<rparr>, new_features_combination_dict c))))))))"

text \<open>\<^verbatim>\<open>edge_collapse\<close>\<close>

definition edge_collapse :: "('g, 'h, 'a) helpers \<Rightarrow> 'g pool_state \<Rightarrow> int \<Rightarrow> error + (bool \<times> 'g pool_state)" where
  "edge_collapse X st edge_id =
     bindE (get_edge_hood_info X (ps_mesh st) edge_id) (\<lambda>(u, v_e_u, e_u, v, v_e_v, e_v).
     bindE (check_u_v_boundaries X (ps_mesh st) u v_e_u e_u v v_e_v e_v)
       (\<lambda>(correct_config, u, v_e_u, e_u, v, v_e_v, e_v).
       if \<not> correct_config then Inr (False, st)
       else
         bindE (edge_rotations X u e_u v_e_u (ps_mesh st)) (\<lambda>(m1, nfcd, diag_vertices).
           case diag_vertices of
             None \<Rightarrow> Inr (False, st\<lparr>ps_mesh := m1\<rparr>)
           | Some dv \<Rightarrow>
               bindE (py_get (ve m1) v) (\<lambda>e_v.
               bindE (collapse_other_vertex_v X (st\<lparr>ps_mesh := m1\<rparr>) u v e_v dv nfcd) (\<lambda>r.
               bindE (union_groups_at_once X (fst r) (snd r)) (\<lambda>st3.
                 Inr (True, st3)))))))"

subsection \<open>One pooling attempt\<close>

text \<open>\<open>a and b\<close> on checks that may raise: \<open>b\<close> is evaluated only when \<open>a\<close> is True.\<close>

definition andE :: "error + bool \<Rightarrow> error + bool \<Rightarrow> error + bool" where
  "andE a b = bindE a (\<lambda>x. if x then b else Inr False)"

definition edge_config_valid :: "int \<Rightarrow> mesh \<Rightarrow> int \<Rightarrow> error + bool" where
  "edge_config_valid out_target m edge_id =
     andE (clean_side out_target m edge_id 0)
       (andE (clean_side out_target m edge_id 3) (is_one_ring_valid m edge_id))"

text \<open>Sequencing for computations that may raise or run forever.\<close>

definition bindO :: "(error + 'x) option \<Rightarrow> ('x \<Rightarrow> (error + 'y) option) \<Rightarrow> (error + 'y) option" where
  "bindO x f = (case x of None \<Rightarrow> None | Some (Inl e) \<Rightarrow> Some (Inl e) | Some (Inr v) \<Rightarrow> f v)"

text \<open>\<^verbatim>\<open>__pool_edge\<close>\<close>

definition pool_edge :: "('g, 'h, 'a) helpers \<Rightarrow> int \<Rightarrow> 'g pool_state \<Rightarrow> int
    \<Rightarrow> (error + (bool \<times> 'g pool_state)) option" where
  "pool_edge X out_target st edge_id =
     bindO (pool_mesh_operations X st) (\<lambda>st1.
     bindO (Some (has_boundaries (ps_mesh st1) edge_id)) (\<lambda>boundary.
       if boundary then Some (Inr (False, st1))
       else
         bindO (Some (edge_config_valid out_target (ps_mesh st1) edge_id)) (\<lambda>valid.
           if valid then
             bindO (Some (edge_collapse X st1 edge_id)) (\<lambda>r.
             bindO (pool_mesh_operations X (snd r)) (\<lambda>st3.
               Some (Inr (fst r, st3))))
           else Some (Inr (False, st1)))))"

subsection \<open>The queue and the pooling pass\<close>

text \<open>
  \<^verbatim>\<open>__build_queue\<close>.  The feature tensor of one mesh is stored by columns: one list of
  channel values per edge.  The feature values are elements of an ordered ring, with
  exact arithmetic.  \<open>torch.cat\<close> raises when the number of columns differs from
  its argument \<open>edges_count\<close> (here \<open>n_edges\<close>), and also for a single column, which is the one case that
  \<open>unsqueeze\<close> skips.  The heap is kept as the sorted list of its entries: this is
  the order in which \<open>heappop\<close> returns them, and nothing is ever pushed.
\<close>

definition squared_magnitude :: "'a::linordered_idom list \<Rightarrow> 'a" where
  "squared_magnitude col = sum_list (map (\<lambda>x. x * x) col)"

definition build_queue :: "'a::linordered_idom list list \<Rightarrow> int \<Rightarrow> error + ('a \<times> int) list" where
  "build_queue features n_edges =
     (let mags = map squared_magnitude features;
          edge_ids = map int [0..<nat n_edges]
      in if length mags = 1 \<or> length mags \<noteq> length edge_ids then Inl RuntimeError
         else Inr (sort (zip mags edge_ids)))"

definition heappop :: "'x list \<Rightarrow> error + ('x \<times> 'x list)" where
  "heappop queue = (case queue of [] \<Rightarrow> Inl IndexError | x # q \<Rightarrow> Inr (x, q))"

text \<open>\<open>x[:n]\<close>\<close>

definition py_take :: "int \<Rightarrow> 'x list \<Rightarrow> 'x list" where
  "py_take n xs = (if 0 \<le> n then take (nat n) xs else take (length xs - nat (- n)) xs)"

text \<open>
  The \<open>while\<close> loop of \<^verbatim>\<open>__pool_main\<close>.  It returns the queue as the loop leaves it
  together with the outcome.
\<close>

function pool_loop :: "('g, 'h, 'a) helpers \<Rightarrow> int \<Rightarrow> ('v \<times> int) list \<Rightarrow> 'g pool_state
    \<Rightarrow> ('v \<times> int) list \<times> (error + 'g pool_state) option" where
  "pool_loop X out_target queue st =
     (if edges_count (ps_mesh st) > out_target then
        (case heappop queue of
           Inl e \<Rightarrow> (queue, Some (Inl e))
         | Inr (entry, queue') \<Rightarrow>
             (case py_get (ps_mask st) (snd entry) of
                Inl e \<Rightarrow> (queue', Some (Inl e))
              | Inr live \<Rightarrow>
                  if live then
                    (case pool_edge X out_target st (snd entry) of
                       None \<Rightarrow> (queue', None)
                     | Some (Inl e) \<Rightarrow> (queue', Some (Inl e))
                     | Some (Inr r) \<Rightarrow> pool_loop X out_target queue' (snd r))
                  else pool_loop X out_target queue' st))
      else (queue, Some (Inr st)))"
  by pat_completeness auto
termination
  by (relation "measure (\<lambda>(X, t, q, st). length q)") (auto simp: heappop_def split: list.splits)

declare pool_loop.simps [simp del]

text \<open>\<^verbatim>\<open>__pool_main\<close> for one mesh and its feature tensor.\<close>

definition pool_main :: "('g, 'h, 'a::linordered_idom) helpers \<Rightarrow> int \<Rightarrow> 'a list list \<Rightarrow> mesh
    \<Rightarrow> (error + ('g pool_state \<times> 'a list list)) option" where
  "pool_main X out_target fe m =
     bindO (Some (build_queue (py_take (edges_count m) fe) (edges_count m))) (\<lambda>queue.
     bindO (Some (if edges_count m < 0 then Inl ValueError
                  else Inr (replicate (nat (edges_count m)) True))) (\<lambda>mask.
     bindO (snd (pool_loop X out_target queue
                   \<lparr>ps_mesh = m, ps_mask = mask, ps_groups = groups_new X (edges_count m)\<rparr>)) (\<lambda>st.
     bindO (Some (mesh_clean X (ps_mesh st) (ps_mask st) (ps_groups st))) (\<lambda>m'.
     bindO (Some (groups_rebuild_features X (ps_groups st) fe (ps_mask st) out_target)) (\<lambda>fe'.
       Some (Inr (st\<lparr>ps_mesh := m'\<rparr>, fe')))))))"


section \<open>An instance of the helpers for the examples\<close>

text \<open>
  The examples below need the helpers as functions.  The edge groups are the list of the
  calls made on them.
\<close>

datatype group_call = Union int int | Union_groups "(int \<times> int list) list" | Remove_group int

text \<open>
  Modelled from the spec: \<^verbatim>\<open>find_doublets\<close> of \<^verbatim>\<open>mesh_rotation_utils\<close> is not among the
  sources.  The specification (4.2) calls a vertex with exactly two incident live edges
  a doublet; detection scans the full vertex set or the supplied candidates and returns
  the doublet vertices and, for each, the pair of incident edges.
\<close>

definition spec_find_doublets :: "mesh \<Rightarrow> int list option \<Rightarrow> error + (int list \<times> int list list)" where
  "spec_find_doublets m vertices =
     bindE (mapE (\<lambda>v. bindE (py_get (ve m) v) (\<lambda>l. Inr (v, l)))
              (case vertices of None \<Rightarrow> map int [0..<length (ve m)] | Some l \<Rightarrow> l)) (\<lambda>vl.
       Inr (map fst (filter (\<lambda>p. length (snd p) = 2) vl),
            map snd (filter (\<lambda>p. length (snd p) = 2) vl)))"

text \<open>
  Modelled from the spec: \<^verbatim>\<open>clear_doublet_pair\<close> of \<^verbatim>\<open>mesh_rotation_utils\<close> is not among
  the sources.  The specification (4.2, 8) says that both doublet edges are removed (dead
  in the mask, sentinel pair, cleared row, one less live edge each), that the doublet
  vertex is left without incident live edges, and that each doublet edge is folded into
  the group of an adjacent edge on either side.  It does not say which adjacent edge, nor
  how the neighbours' rows are re-linked: the model takes the first neighbour on each
  side that is not an edge of the pair, and leaves the other rows as they are.
\<close>

definition spec_kill_edge :: "mesh \<times> bool list \<Rightarrow> int \<Rightarrow> error + (mesh \<times> bool list)" where
  "spec_kill_edge a e =
     bindE (py_get (edges (fst a)) e) (\<lambda>r.
     bindE (py_get (ve (fst a)) (fst r)) (\<lambda>l0.
     bindE (py_set (ve (fst a)) (fst r) (removeAll e l0)) (\<lambda>ve1.
     bindE (py_get ve1 (snd r)) (\<lambda>l1.
     bindE (py_set ve1 (snd r) (removeAll e l1)) (\<lambda>ve2.
     bindE (py_set (snd a) e False) (\<lambda>mask1.
     bindE (py_set (edges (fst a)) e (-1, -1)) (\<lambda>edges1.
     bindE (py_set (gemm_edges (fst a)) e [-1, -1, -1, -1, -1, -1]) (\<lambda>gemm1.
       Inr ((fst a)\<lparr>ve := ve2, edges := edges1, gemm_edges := gemm1,
                     edges_count := edges_count (fst a) - 1\<rparr>, mask1)))))))))"

definition spec_replaced :: "mesh \<Rightarrow> int list \<Rightarrow> nat \<Rightarrow> int \<Rightarrow> error + (int \<times> int) list" where
  "spec_replaced m pair off e =
     bindE (py_get (gemm_edges m) e) (\<lambda>row.
       Inr (map (\<lambda>n. (e, n)) (take 1 (filter (\<lambda>n. n \<noteq> -1 \<and> n \<notin> set pair) (take 3 (drop off row))))))"

definition spec_clear_doublet_pair :: "mesh \<Rightarrow> bool list \<Rightarrow> int list
    \<Rightarrow> error + ((int \<times> int) list \<times> (int \<times> int) list \<times> mesh \<times> bool list)" where
  "spec_clear_doublet_pair m live pair =
     bindE (mapE (spec_replaced m pair 0) pair) (\<lambda>d1.
     bindE (mapE (spec_replaced m pair 3) pair) (\<lambda>d2.
     bindE (loopE spec_kill_edge pair (m, live)) (\<lambda>a.
       Inr (concat d1, concat d2, fst a, snd a))))"

text \<open>
  The instance.  The helpers of the collapse itself, for which the specification gives no
  algorithm, raise \<open>Unmodelled\<close>; no example reaches them.  The \<^verbatim>\<open>Mesh\<close> methods for the
  groups change none of the modelled fields.
\<close>

definition example_helpers :: "(group_call list, unit, int) helpers" where
  "example_helpers =
     \<lparr>find_doublets = spec_find_doublets,
      clear_doublet_pair = spec_clear_doublet_pair,
      get_edge_hood_info = (\<lambda>m e. Inl Unmodelled),
      check_u_v_boundaries = (\<lambda>m u veu eu v vev ev. Inl Unmodelled),
      edge_rotations = (\<lambda>u eu veu m. Inl Unmodelled),
      fix_mesh_hood_order = (\<lambda>m l. Inl Unmodelled),
      fix_mesh_sides = (\<lambda>m l. Inl Unmodelled),
      mesh_remove_edge = (\<lambda>m e. Inl Unmodelled),
      mesh_merge_vertices = (\<lambda>m u v. Inl Unmodelled),
      mesh_union_groups = (\<lambda>m s t. Inr m),
      mesh_remove_group = (\<lambda>m i. Inr m),
      mesh_clean = (\<lambda>m mask g. Inr m),
      groups_new = (\<lambda>n. []),
      groups_union = (\<lambda>g s t. Inr (g @ [Union s t])),
      groups_union_groups = (\<lambda>g d. Inr (g @ [Union_groups d])),
      groups_remove_group = (\<lambda>g i. Inr (g @ [Remove_group i])),
      groups_rebuild_features = (\<lambda>g fe mask t. Inl Unmodelled)\<rparr>"

text \<open>
  The cube without its top face, where every edge has a boundary in its neighbourhood
  and every vertex has three edges, and the same with the bottom face split in two
  quads around the extra vertex 8.
\<close>

definition open_cube :: "face list" where
  "open_cube = [(0,1,2,3),(0,4,5,1),(1,5,6,2),(2,6,7,3),(3,7,4,0)]"
definition open_split_cube :: "face list" where
  "open_split_cube = [(0,1,2,8),(0,8,2,3),(0,4,5,1),(1,5,6,2),(2,6,7,3),(3,7,4,0)]"

definition open_cube_mesh :: mesh where
  "open_cube_mesh =
     \<lparr>edges = [(0, 1), (1, 2), (2, 3), (0, 3), (0, 4), (4, 5), (1, 5),
               (5, 6), (2, 6), (6, 7), (3, 7), (4, 7)],
      gemm_edges =
                [[1, 2, 3, 4, 5, 6], [2, 3, 0, 6, 7, 8],
                 [3, 0, 1, 8, 9, 10], [0, 1, 2, 10, 11, 4],
                 [5, 6, 0, 3, 10, 11], [6, 0, 4, - 1, - 1, - 1],
                 [0, 4, 5, 7, 8, 1], [8, 1, 6, - 1, - 1, - 1],
                 [1, 6, 7, 9, 10, 2], [10, 2, 8, - 1, - 1, - 1],
                 [2, 8, 9, 11, 4, 3], [4, 3, 10, - 1, - 1, - 1]],
      sides =
                [[2, 1, 0, 2, 1, 0], [2, 1, 0, 5, 1, 0], [2, 1, 0, 5, 1, 0],
                 [2, 1, 0, 5, 1, 3], [2, 1, 3, 5, 4, 0],
                 [2, 4, 0, - 1, - 1, - 1], [5, 1, 0, 2, 1, 3],
                 [2, 4, 3, - 1, - 1, - 1], [5, 4, 0, 2, 1, 3],
                 [2, 4, 3, - 1, - 1, - 1], [5, 4, 0, 2, 4, 3],
                 [5, 4, 3, - 1, - 1, - 1]],
      ve = [[0, 3, 4], [0, 1, 6], [1, 2, 8], [2, 3, 10], [4, 5, 11],
            [5, 6, 7], [7, 8, 9], [9, 10, 11]],
      edges_count = 12\<rparr>"

definition open_split_mesh :: mesh where
  "open_split_mesh =
     \<lparr>edges =
        [(0, 1), (1, 2), (2, 8), (0, 8), (2, 3), (0, 3), (0, 4), (4, 5),
         (1, 5), (5, 6), (2, 6), (6, 7), (3, 7), (4, 7)],
      gemm_edges =
          [[1, 2, 3, 6, 7, 8], [2, 3, 0, 8, 9, 10], [3, 0, 1, 4, 5, 3],
           [0, 1, 2, 2, 4, 5], [5, 3, 2, 10, 11, 12], [3, 2, 4, 12, 13, 6],
           [7, 8, 0, 5, 12, 13], [8, 0, 6, - 1, - 1, - 1],
           [0, 6, 7, 9, 10, 1], [10, 1, 8, - 1, - 1, - 1],
           [1, 8, 9, 11, 12, 4], [12, 4, 10, - 1, - 1, - 1],
           [4, 10, 11, 13, 6, 5], [6, 5, 12, - 1, - 1, - 1]],
      sides =
          [[2, 1, 0, 2, 1, 0], [2, 1, 0, 5, 1, 0], [2, 1, 0, 2, 1, 3],
           [2, 1, 0, 5, 1, 0], [2, 4, 3, 5, 1, 0], [5, 4, 0, 5, 1, 3],
           [2, 1, 3, 5, 4, 0], [2, 4, 0, - 1, - 1, - 1], [5, 1, 0, 2, 1, 3],
           [2, 4, 3, - 1, - 1, - 1], [5, 4, 0, 2, 1, 3],
           [2, 4, 3, - 1, - 1, - 1], [5, 4, 0, 2, 4, 3],
           [5, 4, 3, - 1, - 1, - 1]],
      ve = [[0, 3, 5, 6], [0, 1, 8], [1, 2, 4, 10], [4, 5, 12],
            [6, 7, 13], [7, 8, 9], [9, 10, 11], [11, 12, 13], [2, 3]],
      edges_count = 14\<rparr>"

definition start_state :: "mesh \<Rightarrow> group_call list pool_state" where
  "start_state m = \<lparr>ps_mesh = m, ps_mask = replicate (nat (edges_count m)) True, ps_groups = []\<rparr>"

lemma open_cube_built: "build_gemm 8 open_cube = Inr open_cube_mesh"
  by code_simp

lemma open_split_built: "build_gemm 9 open_split_cube = Inr open_split_mesh"
  by code_simp


lemma bindO_simps [simp]:
  "bindO None f = None" "bindO (Some (Inl e)) f = Some (Inl e)" "bindO (Some (Inr v)) f = f v"
  by (simp_all add: bindO_def)

lemma bindO_eq_Some_Inr:
  "(bindO x f = Some (Inr y)) = (\<exists>v. x = Some (Inr v) \<and> f v = Some (Inr y))"
  by (cases x) (auto simp: bindO_def split: sum.splits)

section \<open>Properties of the pooling layer\<close>

subsection \<open>Boundaries\<close>

text \<open>The row of an edge, empty when the index is out of range.\<close>

definition gemm_row :: "mesh \<Rightarrow> int \<Rightarrow> int list" where
  "gemm_row m n = (case py_get (gemm_edges m) n of Inl _ \<Rightarrow> [] | Inr r \<Rightarrow> r)"

lemma has_boundaries_loop_Inr:
  "has_boundaries_loop m row = Inr b \<Longrightarrow> b = (\<exists>n\<in>set row. n = -1 \<or> -1 \<in> set (gemm_row m n))"
proof (induction row)
  case Nil
  then show ?case by simp
next
  case (Cons n row)
  show ?case
  proof (cases "n = -1")
    case True
    then show ?thesis using Cons.prems by auto
  next
    case False
    then obtain r where r: "py_get (gemm_edges m) n = Inr r"
      and c: "(if -1 \<in> set r then Inr True else has_boundaries_loop m row) = Inr b"
      using Cons.prems by (auto simp: bindE_eq_Inr)
    have g: "gemm_row m n = r" using r by (simp add: gemm_row_def)
    show ?thesis
    proof (cases "-1 \<in> set r")
      case True
      then show ?thesis using c g by auto
    next
      case F: False
      then have "has_boundaries_loop m row = Inr b" using c by simp
      from Cons.IH[OF this] show ?thesis using F g False by auto
    qed
  qed
qed

lemma has_boundaries_Inr:
  assumes "has_boundaries m edge_id = Inr b"
  shows "b = (\<exists>n\<in>set (gemm_row m edge_id). n = -1 \<or> -1 \<in> set (gemm_row m n))"
proof -
  from assms obtain row where r: "py_get (gemm_edges m) edge_id = Inr row"
    and l: "has_boundaries_loop m row = Inr b"
    by (auto simp: has_boundaries_def bindE_eq_Inr)
  have "gemm_row m edge_id = row" using r by (simp add: gemm_row_def)
  with has_boundaries_loop_Inr[OF l] show ?thesis by simp
qed

lemma pool_edge_boundary:
  assumes "pool_mesh_operations X st = Some (Inr st1)"
    and "has_boundaries (ps_mesh st1) edge_id = Inr True"
  shows "pool_edge X out_target st edge_id = Some (Inr (False, st1))"
  using assms by (simp add: pool_edge_def)

text \<open>
  Claim C6.  When \<^verbatim>\<open>has_boundaries\<close> returns, it returns True exactly when some slot of the
  edge's row is \<open>-1\<close> or the row of some neighbour in it has a slot \<open>-1\<close>; and when it
  returns True for the candidate (on the mesh as the doublet clearing at the start of
  \<^verbatim>\<open>__pool_edge\<close> left it), \<^verbatim>\<open>__pool_edge\<close> returns False.
\<close>

theorem has_boundaries_rejects:
  "(has_boundaries m edge_id = Inr b \<longrightarrow>
      b = (\<exists>n\<in>set (gemm_row m edge_id). n = -1 \<or> -1 \<in> set (gemm_row m n)))
   \<and> (pool_mesh_operations X st = Some (Inr st1) \<and> has_boundaries (ps_mesh st1) edge_id = Inr True \<longrightarrow>
        pool_edge X out_target st edge_id = Some (Inr (False, st1)))"
  using has_boundaries_Inr[of m edge_id b] pool_edge_boundary[of X st st1 edge_id out_target] by blast

theorem has_boundaries_rejects_witness:
  "has_boundaries open_cube_mesh 5 = Inr True
   \<and> (\<exists>n\<in>set (gemm_row open_cube_mesh 5). n = -1 \<or> -1 \<in> set (gemm_row open_cube_mesh n))
   \<and> pool_mesh_operations example_helpers (start_state open_cube_mesh) = Some (Inr (start_state open_cube_mesh))
   \<and> pool_edge example_helpers 6 (start_state open_cube_mesh) 5 = Some (Inr (False, start_state open_cube_mesh))"
proof -
  have h: "has_boundaries open_cube_mesh 5 = Inr True" by code_simp
  have p: "pool_mesh_operations example_helpers (start_state open_cube_mesh) = Some (Inr (start_state open_cube_mesh))"
    by code_simp
  have m: "ps_mesh (start_state open_cube_mesh) = open_cube_mesh" by (simp add: start_state_def)
  from has_boundaries_rejects[of open_cube_mesh 5 True example_helpers "start_state open_cube_mesh"
      "start_state open_cube_mesh" 6] h p m
  show ?thesis by simp
qed


subsection \<open>Rejected candidates\<close>

lemma pool_mesh_operations_no_doublets:
  assumes "find_doublets X (ps_mesh st) None = Inr ([], ps)"
  shows "pool_mesh_operations X st = Some (Inr st)"
  using assms by (subst pool_mesh_operations.simps) (simp add: pool_doublets_def)

lemma edge_collapse_False:
  assumes "edge_collapse X st edge_id = Inr (False, st2)"
  shows "st2 = st \<or> (\<exists>u e_u v_e_u m1 nfcd.
           edge_rotations X u e_u v_e_u (ps_mesh st) = Inr (m1, nfcd, None) \<and> st2 = st\<lparr>ps_mesh := m1\<rparr>)"
  using assms
  by (auto simp: edge_collapse_def bindE_eq_Inr split: if_splits option.splits prod.splits) blast

text \<open>
  Claim C2, as the code has it.  When \<^verbatim>\<open>__pool_edge\<close> returns False, the state is the one
  that the doublet clearing at its start (\<^verbatim>\<open>pool_mesh_operations\<close>) left, or, when
  \<^verbatim>\<open>edge_collapse\<close> was started and returned False, the one that \<^verbatim>\<open>edge_collapse\<close> left
  followed by a second doublet clearing.  When no doublet is found and the candidate fails
  the boundary check or the validity checks, the state is the one before the attempt.
\<close>

theorem pool_edge_False_state:
  assumes "pool_edge X out_target st edge_id = Some (Inr (False, st'))"
  shows "(\<exists>st1. pool_mesh_operations X st = Some (Inr st1) \<and>
            (st' = st1 \<or>
             (\<exists>st2. edge_collapse X st1 edge_id = Inr (False, st2) \<and>
                    pool_mesh_operations X st2 = Some (Inr st'))))
     \<and> ((\<exists>ps. find_doublets X (ps_mesh st) None = Inr ([], ps)) \<and>
          (has_boundaries (ps_mesh st) edge_id = Inr True \<or>
           edge_config_valid out_target (ps_mesh st) edge_id = Inr False) \<longrightarrow> st' = st)"
proof
  from assms obtain st1 where 1: "pool_mesh_operations X st = Some (Inr st1)"
    and 2: "bindO (Some (has_boundaries (ps_mesh st1) edge_id)) (\<lambda>boundary.
       if boundary then Some (Inr (False, st1))
       else
         bindO (Some (edge_config_valid out_target (ps_mesh st1) edge_id)) (\<lambda>valid.
           if valid then
             bindO (Some (edge_collapse X st1 edge_id)) (\<lambda>r.
             bindO (pool_mesh_operations X (snd r)) (\<lambda>st3.
               Some (Inr (fst r, st3))))
           else Some (Inr (False, st1)))) = Some (Inr (False, st'))"
    unfolding pool_edge_def bindO_eq_Some_Inr by blast
  have "st' = st1 \<or>
             (\<exists>st2. edge_collapse X st1 edge_id = Inr (False, st2) \<and>
                    pool_mesh_operations X st2 = Some (Inr st'))"
    using 2 by (auto simp: bindO_eq_Some_Inr split: if_splits)
  with 1 show "\<exists>st1. pool_mesh_operations X st = Some (Inr st1) \<and>
            (st' = st1 \<or>
             (\<exists>st2. edge_collapse X st1 edge_id = Inr (False, st2) \<and>
                    pool_mesh_operations X st2 = Some (Inr st')))" by blast
  show "(\<exists>ps. find_doublets X (ps_mesh st) None = Inr ([], ps)) \<and>
          (has_boundaries (ps_mesh st) edge_id = Inr True \<or>
           edge_config_valid out_target (ps_mesh st) edge_id = Inr False) \<longrightarrow> st' = st"
  proof
    assume a: "(\<exists>ps. find_doublets X (ps_mesh st) None = Inr ([], ps)) \<and>
          (has_boundaries (ps_mesh st) edge_id = Inr True \<or>
           edge_config_valid out_target (ps_mesh st) edge_id = Inr False)"
    then have "pool_mesh_operations X st = Some (Inr st)"
      using pool_mesh_operations_no_doublets by blast
    then have "st1 = st" using 1 by simp
    then show "st' = st" using 2 a by (auto simp: bindO_eq_Some_Inr split: if_splits)
  qed
qed

theorem pool_edge_False_state_witness:
  "pool_edge example_helpers 6 (start_state open_cube_mesh) 5 = Some (Inr (False, start_state open_cube_mesh))
   \<and> find_doublets example_helpers (ps_mesh (start_state open_cube_mesh)) None = Inr ([], [])
   \<and> has_boundaries (ps_mesh (start_state open_cube_mesh)) 5 = Inr True"
proof -
  have p: "pool_edge example_helpers 6 (start_state open_cube_mesh) 5 = Some (Inr (False, start_state open_cube_mesh))"
    by code_simp
  have f: "find_doublets example_helpers (ps_mesh (start_state open_cube_mesh)) None = Inr ([], [])"
    by code_simp
  have h: "has_boundaries (ps_mesh (start_state open_cube_mesh)) 5 = Inr True"
    by code_simp
  from pool_edge_False_state[OF p] p f h show ?thesis by simp
qed

text \<open>
  The claim as worded fails when a doublet is present: on the open cube with the split
  bottom face the attempt on the rim edge 7 returns False, and the two doublet edges are
  gone.
\<close>

theorem pool_edge_False_mutates:
  "(case pool_edge example_helpers 6 (start_state open_split_mesh) 7 of
      Some (Inr r) \<Rightarrow>
        fst r = False \<and> edges_count (ps_mesh (snd r)) = 12 \<and>
        gemm_edges (ps_mesh (snd r)) \<noteq> gemm_edges open_split_mesh \<and>
        ve (ps_mesh (snd r)) \<noteq> ve open_split_mesh
    | _ \<Rightarrow> False)
   \<and> edges_count (ps_mesh (start_state open_split_mesh)) = 14"
  by code_simp


subsection \<open>The loop of the pooling pass\<close>

lemma heappop_Cons [simp]: "heappop (x # q) = Inr (x, q)" and heappop_Nil [simp]: "heappop [] = Inl IndexError"
  by (simp_all add: heappop_def)

lemma pool_loop_done:
  "\<not> out_target < edges_count (ps_mesh st) \<Longrightarrow> pool_loop X out_target queue st = (queue, Some (Inr st))"
  by (subst pool_loop.simps) simp

lemma pool_loop_empty:
  "out_target < edges_count (ps_mesh st) \<Longrightarrow> pool_loop X out_target [] st = ([], Some (Inl IndexError))"
  by (subst pool_loop.simps) simp

lemma pool_loop_step:
  assumes "out_target < edges_count (ps_mesh st)"
  shows "(\<exists>r. pool_loop X out_target (entry # q) st = (q, r) \<and> (\<forall>s. r \<noteq> Some (Inr s)))
       \<or> (\<exists>st'. pool_loop X out_target (entry # q) st = pool_loop X out_target q st')"
proof (cases "py_get (ps_mask st) (snd entry)")
  case (Inl e)
  then show ?thesis using assms by (subst pool_loop.simps) simp
next
  case (Inr live)
  show ?thesis
  proof (cases live)
    case False
    then have "pool_loop X out_target (entry # q) st = pool_loop X out_target q st"
      using assms Inr by (subst pool_loop.simps) simp
    then show ?thesis by blast
  next
    case True
    show ?thesis
    proof (cases "pool_edge X out_target st (snd entry)")
      case None
      then show ?thesis using assms Inr True by (subst pool_loop.simps) simp
    next
      case (Some a)
      show ?thesis
      proof (cases a)
        case (Inl e)
        then show ?thesis using assms Inr True Some by (subst pool_loop.simps) simp
      next
        case R: (Inr r)
        then have "pool_loop X out_target (entry # q) st = pool_loop X out_target q (snd r)"
          using assms Inr True Some by (subst pool_loop.simps) simp
        then show ?thesis by blast
      qed
    qed
  qed
qed

lemma pool_loop_normal:
  "pool_loop X out_target queue st = (queue', Some (Inr st')) \<Longrightarrow> edges_count (ps_mesh st') \<le> out_target"
proof (induction queue arbitrary: st)
  case Nil
  show ?case
  proof (cases "out_target < edges_count (ps_mesh st)")
    case True
    then show ?thesis using Nil by (simp add: pool_loop_empty)
  next
    case False
    then show ?thesis using Nil by (simp add: pool_loop_done)
  qed
next
  case (Cons entry q)
  show ?case
  proof (cases "out_target < edges_count (ps_mesh st)")
    case False
    then show ?thesis using Cons.prems by (simp add: pool_loop_done)
  next
    case True
    from pool_loop_step[OF True, of X entry q] Cons.prems
    obtain st2 where "pool_loop X out_target q st2 = (queue', Some (Inr st'))" by auto
    then show ?thesis by (rule Cons.IH)
  qed
qed

lemma pool_loop_suffix:
  "\<exists>popped. queue = popped @ fst (pool_loop X out_target queue st)"
proof (induction queue arbitrary: st)
  case Nil
  show ?case
    by (cases "out_target < edges_count (ps_mesh st)") (simp_all add: pool_loop_empty pool_loop_done)
next
  case (Cons entry q)
  show ?case
  proof (cases "out_target < edges_count (ps_mesh st)")
    case False
    then show ?thesis by (simp add: pool_loop_done)
  next
    case True
    from pool_loop_step[OF True, of X entry q]
    consider r where "pool_loop X out_target (entry # q) st = (q, r)"
      | st2 where "pool_loop X out_target (entry # q) st = pool_loop X out_target q st2" by blast
    then show ?thesis
    proof cases
      case 1
      then have "entry # q = [entry] @ fst (pool_loop X out_target (entry # q) st)" by simp
      then show ?thesis by blast
    next
      case 2
      from Cons.IH[of st2] obtain popped where "q = popped @ fst (pool_loop X out_target q st2)" by blast
      then have "entry # q = (entry # popped) @ fst (pool_loop X out_target (entry # q) st)"
        using 2 by simp
      then show ?thesis by blast
    qed
  qed
qed

lemma build_queue_length:
  "build_queue features n = Inr queue \<Longrightarrow> length queue = nat n \<and> length features = nat n"
  by (auto simp: build_queue_def Let_def split: if_splits)


text \<open>
  Claim C4, as the code has it.  The loop ends normally only with \<open>edges_count\<close> at or
  below the target.  With an empty queue and \<open>edges_count\<close> still above the target,
  \<open>heappop\<close> raises IndexError, and \<^verbatim>\<open>__pool_main\<close> passes the exception on without
  cleaning the mesh or rebuilding features.
\<close>

theorem pool_loop_exhaustion:
  "(pool_loop X out_target queue st = (queue', Some (Inr st')) \<longrightarrow> edges_count (ps_mesh st') \<le> out_target)
   \<and> (out_target < edges_count (ps_mesh st) \<longrightarrow>
        pool_loop X out_target [] st = ([], Some (Inl IndexError)))
   \<and> (0 \<le> edges_count m \<and>
        build_queue (py_take (edges_count m) fe) (edges_count m) = Inr queue \<and>
        snd (pool_loop X out_target queue
               \<lparr>ps_mesh = m, ps_mask = replicate (nat (edges_count m)) True,
                ps_groups = groups_new X (edges_count m)\<rparr>) = Some (Inl e) \<longrightarrow>
        pool_main X out_target fe m = Some (Inl e))"
proof -
  have "0 \<le> edges_count m \<and>
        build_queue (py_take (edges_count m) fe) (edges_count m) = Inr queue \<and>
        snd (pool_loop X out_target queue
               \<lparr>ps_mesh = m, ps_mask = replicate (nat (edges_count m)) True,
                ps_groups = groups_new X (edges_count m)\<rparr>) = Some (Inl e) \<longrightarrow>
        pool_main X out_target fe m = Some (Inl e)"
    by (simp add: pool_main_def)
  then show ?thesis
    using pool_loop_normal[of X out_target queue st queue' st'] pool_loop_empty[of out_target st X]
    by blast
qed


definition example_features :: "int list list" where
  "example_features = [[3, 1], [1, 2], [0, 4], [2, 1], [5, 0], [1, 1], [2, 2], [0, 3], [4, 4], [1, 0], [3, 3], [2, 0]]"

definition example_queue :: "(int \<times> int) list" where
  "example_queue = [(1, 9), (2, 5), (4, 11), (5, 1), (5, 3), (8, 6), (9, 7), (10, 0), (16, 2), (18, 10), (25, 4), (32, 8)]"

lemma example_queue_built: "build_queue example_features 12 = Inr example_queue"
  by code_simp


theorem pool_loop_exhaustion_witness:
  "pool_loop example_helpers 12 example_queue (start_state open_cube_mesh)
     = (example_queue, Some (Inr (start_state open_cube_mesh)))
   \<and> edges_count (ps_mesh (start_state open_cube_mesh)) \<le> 12
   \<and> (6::int) < edges_count (ps_mesh (start_state open_cube_mesh))
   \<and> pool_loop example_helpers 6 [] (start_state open_cube_mesh) = ([], Some (Inl IndexError))
   \<and> (0::int) \<le> edges_count open_cube_mesh
   \<and> build_queue (py_take (edges_count open_cube_mesh) example_features) (edges_count open_cube_mesh)
        = Inr example_queue
   \<and> pool_main example_helpers 6 example_features open_cube_mesh = Some (Inl IndexError)"
proof -
  have a: "pool_loop example_helpers 12 example_queue (start_state open_cube_mesh)
     = (example_queue, Some (Inr (start_state open_cube_mesh)))" by code_simp
  have b: "(6::int) < edges_count (ps_mesh (start_state open_cube_mesh))" by code_simp
  have c: "(0::int) \<le> edges_count open_cube_mesh" by code_simp
  have d: "build_queue (py_take (edges_count open_cube_mesh) example_features) (edges_count open_cube_mesh)
        = Inr example_queue" by code_simp
  have e: "snd (pool_loop example_helpers 6 example_queue
               \<lparr>ps_mesh = open_cube_mesh, ps_mask = replicate (nat (edges_count open_cube_mesh)) True,
                ps_groups = groups_new example_helpers (edges_count open_cube_mesh)\<rparr>) = Some (Inl IndexError)"
    by code_simp
  from pool_loop_exhaustion[of example_helpers 12 example_queue "start_state open_cube_mesh" example_queue
      "start_state open_cube_mesh" open_cube_mesh example_features IndexError] a
  have 1: "edges_count (ps_mesh (start_state open_cube_mesh)) \<le> 12" by blast
  from pool_loop_exhaustion[of example_helpers 6 example_queue "start_state open_cube_mesh" example_queue
      "start_state open_cube_mesh" open_cube_mesh example_features IndexError] b c d e
  have 2: "pool_loop example_helpers 6 [] (start_state open_cube_mesh) = ([], Some (Inl IndexError))"
    and 3: "pool_main example_helpers 6 example_features open_cube_mesh = Some (Inl IndexError)"
    by blast+
  show ?thesis using a b c d 1 2 3 by simp
qed

text \<open>
  On the open cube no edge can be collapsed; with target 6 the queue runs empty and the
  pass ends in IndexError.
\<close>

theorem pool_main_exhausted_queue_raises:
  "pool_main example_helpers 6 example_features open_cube_mesh = Some (Inl IndexError)
   \<and> (6::int) < edges_count open_cube_mesh"
  by code_simp

subsection \<open>The first entry popped\<close>

lemma sorted_hd_le:
  "sorted (x # xs) \<Longrightarrow> y \<in> set (x # xs) \<Longrightarrow> x \<le> y"
  by auto




section \<open>The number of live edges\<close>

subsection \<open>What is taken for granted about the helpers\<close>

text \<open>
  What the statements about \<open>edges_count\<close> take for granted about the helpers.  The
  methods of \<^verbatim>\<open>Mesh\<close> for groups, edge removal and vertex merging and the two repair
  functions leave \<open>edges_count\<close> as it is; \<^verbatim>\<open>edge_rotations\<close> does not raise it; clearing a
  doublet pair lowers it; \<^verbatim>\<open>find_doublets\<close> returns a pair for the doublet vertices it
  reports; and the diagonal vertices that a rotation reports are such that an edge at
  the vertex \<open>v\<close> has one of them as an endpoint.
\<close>

definition touches :: "int list \<Rightarrow> (int \<times> int) list \<Rightarrow> int \<Rightarrow> bool" where
  "touches diag_vertices es e =
     (case py_get es e of Inl _ \<Rightarrow> False
                        | Inr r \<Rightarrow> fst r \<in> set diag_vertices \<or> snd r \<in> set diag_vertices)"

definition touches_diag :: "mesh \<Rightarrow> int list \<Rightarrow> int list \<Rightarrow> bool" where
  "touches_diag m diag_vertices e_v =
     (distinct e_v \<and> list_all (\<lambda>e. 0 \<le> e) e_v \<and> list_ex (touches diag_vertices (edges m)) e_v)"

definition helpers_diag :: "('g, 'h, 'a) helpers \<Rightarrow> bool" where
  "helpers_diag X =

      (\<forall>m e h c m1 nfcd dv l.
          get_edge_hood_info X m e = Inr h \<longrightarrow>
          (case h of (u, v_e_u, e_u, v, v_e_v, e_v) \<Rightarrow> check_u_v_boundaries X m u v_e_u e_u v v_e_v e_v) = Inr c \<longrightarrow>
          fst c \<longrightarrow>
          (case snd c of (u, v_e_u, e_u, v, v_e_v, e_v) \<Rightarrow>
             edge_rotations X u e_u v_e_u m = Inr (m1, nfcd, Some dv) \<and> py_get (ve m1) v = Inr l) \<longrightarrow>
          touches_diag m1 dv l)"

definition helpers_ok :: "('g, 'h, 'a) helpers \<Rightarrow> bool" where
  "helpers_ok X =
     ((\<forall>m s t m'. mesh_union_groups X m s t = Inr m' \<longrightarrow> edges_count m' = edges_count m) \<and>
      (\<forall>m i m'. mesh_remove_group X m i = Inr m' \<longrightarrow> edges_count m' = edges_count m) \<and>
      (\<forall>m i m'. mesh_remove_edge X m i = Inr m' \<longrightarrow> edges_count m' = edges_count m) \<and>
      (\<forall>m u v m'. mesh_merge_vertices X m u v = Inr m' \<longrightarrow> edges_count m' = edges_count m) \<and>
      (\<forall>m l m'. fix_mesh_hood_order X m l = Inr m' \<longrightarrow> edges_count m' = edges_count m) \<and>
      (\<forall>m l m'. fix_mesh_sides X m l = Inr m' \<longrightarrow> edges_count m' = edges_count m) \<and>
      (\<forall>m live pair r. length pair = 2 \<longrightarrow> clear_doublet_pair X m live pair = Inr r \<longrightarrow>
          edges_count (fst (snd (snd r))) < edges_count m) \<and>
      (\<forall>m vs r. find_doublets X m vs = Inr r \<longrightarrow>
          (fst r \<noteq> [] \<longrightarrow> snd r \<noteq> []) \<and> list_all (\<lambda>pair. length pair = 2) (snd r)) \<and>
      (\<forall>u e_u v_e_u m r. edge_rotations X u e_u v_e_u m = Inr r \<longrightarrow> edges_count (fst r) \<le> edges_count m) \<and>
      helpers_diag X)"

lemma helpers_okD1:
  "helpers_ok X \<Longrightarrow> mesh_union_groups X m s t = Inr m' \<Longrightarrow> edges_count m' = edges_count m"
  by (simp add: helpers_ok_def)

lemma helpers_okD2:
  "helpers_ok X \<Longrightarrow> mesh_remove_group X m i = Inr m' \<Longrightarrow> edges_count m' = edges_count m"
  by (simp add: helpers_ok_def)

lemma helpers_okD3:
  "helpers_ok X \<Longrightarrow> mesh_remove_edge X m i = Inr m' \<Longrightarrow> edges_count m' = edges_count m"
  by (simp add: helpers_ok_def)

lemma helpers_okD4:
  "helpers_ok X \<Longrightarrow> mesh_merge_vertices X m u v = Inr m' \<Longrightarrow> edges_count m' = edges_count m"
  by (simp add: helpers_ok_def)

lemma helpers_okD5:
  "helpers_ok X \<Longrightarrow> fix_mesh_hood_order X m l = Inr m' \<Longrightarrow> edges_count m' = edges_count m"
  by (simp add: helpers_ok_def)

lemma helpers_okD6:
  "helpers_ok X \<Longrightarrow> fix_mesh_sides X m l = Inr m' \<Longrightarrow> edges_count m' = edges_count m"
  by (simp add: helpers_ok_def)

lemma helpers_okD7:
  "helpers_ok X \<Longrightarrow> length pair = 2 \<Longrightarrow> clear_doublet_pair X m live pair = Inr r \<Longrightarrow>
     edges_count (fst (snd (snd r))) < edges_count m"
  by (cases r) (fastforce simp: helpers_ok_def)

lemma helpers_okD8:
  "helpers_ok X \<Longrightarrow> find_doublets X m vs = Inr (dvs, pairs) \<Longrightarrow>
     (dvs \<noteq> [] \<longrightarrow> pairs \<noteq> []) \<and> list_all (\<lambda>pair. length pair = 2) pairs"
  by (fastforce simp: helpers_ok_def)

lemma helpers_okD9:
  "helpers_ok X \<Longrightarrow> edge_rotations X u e_u v_e_u m = Inr r \<Longrightarrow> edges_count (fst r) \<le> edges_count m"
  by (cases r) (fastforce simp: helpers_ok_def)

lemma helpers_okD10:
  "helpers_ok X \<Longrightarrow> get_edge_hood_info X m e = Inr (u, v_e_u, e_u, v, v_e_v, e_v) \<Longrightarrow>
     check_u_v_boundaries X m u v_e_u e_u v v_e_v e_v = Inr (True, u', v_e_u', e_u', v', v_e_v', e_v') \<Longrightarrow>
     edge_rotations X u' e_u' v_e_u' m = Inr (m1, nfcd, Some dv) \<Longrightarrow> py_get (ve m1) v' = Inr l \<Longrightarrow>
     touches_diag m1 dv l"
proof -
  assume ok: "helpers_ok X" and g: "get_edge_hood_info X m e = Inr (u, v_e_u, e_u, v, v_e_v, e_v)"
    and c: "check_u_v_boundaries X m u v_e_u e_u v v_e_v e_v = Inr (True, u', v_e_u', e_u', v', v_e_v', e_v')"
    and r: "edge_rotations X u' e_u' v_e_u' m = Inr (m1, nfcd, Some dv)" and l: "py_get (ve m1) v' = Inr l"
  from ok have "helpers_diag X" by (simp add: helpers_ok_def)
  then have "\<forall>m e h c m1 nfcd dv l.
          get_edge_hood_info X m e = Inr h \<longrightarrow>
          (case h of (u, v_e_u, e_u, v, v_e_v, e_v) \<Rightarrow> check_u_v_boundaries X m u v_e_u e_u v v_e_v e_v) = Inr c \<longrightarrow>
          fst c \<longrightarrow>
          (case snd c of (u, v_e_u, e_u, v, v_e_v, e_v) \<Rightarrow>
             edge_rotations X u e_u v_e_u m = Inr (m1, nfcd, Some dv) \<and> py_get (ve m1) v = Inr l) \<longrightarrow>
          touches_diag m1 dv l"
    unfolding helpers_diag_def .
  from this[rule_format, of m e "(u, v_e_u, e_u, v, v_e_v, e_v)" "(True, u', v_e_u', e_u', v', v_e_v', e_v')" m1 nfcd dv l]
  show ?thesis using g c r l by simp
qed

text \<open>Loops whose steps keep, or do not raise, an integer measure of the state.\<close>

lemma loopE_measure_eq:
  assumes "\<And>s x s'. f s x = Inr s' \<Longrightarrow> c s' = (c s :: int)"
  shows "loopE f xs s = Inr s' \<Longrightarrow> c s' = c s"
proof (induction xs arbitrary: s)
  case Nil
  then show ?case by simp
next
  case (Cons x xs)
  from Cons.prems obtain s1 where "f s x = Inr s1" "loopE f xs s1 = Inr s'"
    by (auto simp: bindE_eq_Inr)
  then show ?case using assms Cons.IH by fastforce
qed

lemma loopE_measure_less:
  assumes "\<And>s x s'. x \<in> set xs \<Longrightarrow> f s x = Inr s' \<Longrightarrow> c s' < (c s :: int)"
  shows "loopE f xs s = Inr s' \<Longrightarrow> xs \<noteq> [] \<Longrightarrow> c s' < c s"
  using assms
proof (induction xs arbitrary: s)
  case Nil
  then show ?case by simp
next
  case (Cons x xs)
  from Cons.prems(1) obtain s1 where s1: "f s x = Inr s1" "loopE f xs s1 = Inr s'"
    by (auto simp: bindE_eq_Inr)
  have lt: "c s1 < c s" using Cons.prems(3)[of x s s1] s1(1) by simp
  show ?case
  proof (cases xs)
    case Nil
    then show ?thesis using s1 lt by simp
  next
    case (Cons y ys)
    then have ne: "xs \<noteq> []" by simp
    have "c s' < c s1"
    proof (rule Cons.IH[OF s1(2) ne])
      fix y t t' assume "y \<in> set xs" "f t y = Inr t'"
      then show "c t' < c t" using Cons.prems(3)[of y t t'] by simp
    qed
    then show ?thesis using lt by simp
  qed
qed

abbreviation live_edges :: "'g pool_state \<Rightarrow> int" where
  "live_edges st \<equiv> edges_count (ps_mesh st)"

lemma union_groups_count:
  assumes "helpers_ok X" and "union_groups X st s t = Inr st'"
  shows "live_edges st' = live_edges st"
  using assms(2) helpers_okD1[OF assms(1)]
  by (auto simp: union_groups_def bindE_eq_Inr)

lemma remove_group_count:
  assumes "helpers_ok X" and "remove_group X st i = Inr st'"
  shows "live_edges st' = live_edges st"
  using assms(2) helpers_okD2[OF assms(1)]
  by (auto simp: remove_group_def bindE_eq_Inr)

lemma py_get_py_set_same:
  "py_set xs i v = Inr ys \<Longrightarrow> py_get ys i = Inr v"
  by (auto simp: py_set_def py_get_def bindE_eq_Inr np_idx_def split: if_splits)

lemma remove_edge_effect:
  assumes "remove_edge X st e = Inr st'"
  shows "py_get (ps_mask st') e = Inr False \<and> py_get (edges (ps_mesh st')) e = Inr (-1, -1) \<and>
         py_get (gemm_edges (ps_mesh st')) e = Inr [-1, -1, -1, -1, -1, -1]"
  using assms
  by (auto simp: remove_edge_def bindE_eq_Inr py_get_py_set_same)

lemma remove_edge_count:
  assumes "helpers_ok X" and "remove_edge X st e = Inr st'"
  shows "live_edges st' = live_edges st - 1"
proof -
  from assms(2) obtain st1 m2 where 1: "remove_group X st e = Inr st1"
    and 2: "mesh_remove_edge X (ps_mesh st1) e = Inr m2" and 3: "live_edges st' = edges_count m2 - 1"
    by (auto simp: remove_edge_def bindE_eq_Inr)
  show ?thesis
    using remove_group_count[OF assms(1) 1] helpers_okD3[OF assms(1) 2] 3 by simp
qed

lemma clear_pair_count:
  assumes ok: "helpers_ok X" and len: "length pair = 2" and r: "clear_pair X st pair = Inr st'"
  shows "live_edges st' < live_edges st"
proof -
  from r obtain d1 d2 m1 mask1 st2 st3
    where c: "clear_doublet_pair X (ps_mesh st) (ps_mask st) pair = Inr (d1, d2, m1, mask1)"
    and 2: "loopE (\<lambda>s p. union_groups X s (fst p) (snd p)) d1
              (st\<lparr>ps_mesh := m1, ps_mask := mask1\<rparr>) = Inr st2"
    and 3: "loopE (\<lambda>s p. union_groups X s (fst p) (snd p)) d2 st2 = Inr st3"
    and 4: "loopE (remove_group X) pair st3 = Inr st'"
    by (auto simp: clear_pair_def bindE_eq_Inr)
  have "live_edges st2 = edges_count m1"
    using loopE_measure_eq[of "\<lambda>s p. union_groups X s (fst p) (snd p)" live_edges, OF _ 2]
      union_groups_count[OF ok] by simp
  moreover have "live_edges st3 = live_edges st2"
    using loopE_measure_eq[of "\<lambda>s p. union_groups X s (fst p) (snd p)" live_edges, OF _ 3]
      union_groups_count[OF ok] by simp
  moreover have "live_edges st' = live_edges st3"
    using loopE_measure_eq[of "remove_group X" live_edges, OF _ 4] remove_group_count[OF ok] by simp
  ultimately show ?thesis using helpers_okD7[OF ok len c] by simp
qed

lemma pool_doublets_count:
  assumes ok: "helpers_ok X" and r: "pool_doublets X st vs = Inr (b, st')"
  shows "(b \<longrightarrow> live_edges st' < live_edges st) \<and> (\<not> b \<longrightarrow> st' = st)"
proof -
  from r obtain dvs pairs where f: "find_doublets X (ps_mesh st) vs = Inr (dvs, pairs)"
    and c: "(if length dvs = 0 then Inr (False, st)
            else bindE (loopE (clear_pair X) pairs st) (\<lambda>st'. Inr (True, st'))) = Inr (b, st')"
    by (auto simp: pool_doublets_def bindE_eq_Inr)
  note d8 = helpers_okD8[OF ok f]
  show ?thesis
  proof (cases "dvs = []")
    case True
    then show ?thesis using c by simp
  next
    case False
    then have l: "loopE (clear_pair X) pairs st = Inr st'" and b: "b"
      using c by (auto simp: bindE_eq_Inr)
    have ne: "pairs \<noteq> []" using d8 False by simp
    have "\<And>s x s'. x \<in> set pairs \<Longrightarrow> clear_pair X s x = Inr s' \<Longrightarrow> live_edges s' < live_edges s"
      using clear_pair_count[OF ok] d8 by (auto simp: list_all_iff)
    from loopE_measure_less[of pairs "clear_pair X" live_edges, OF this l ne]
    have "live_edges st' < live_edges st" by simp
    then show ?thesis using b by simp
  qed
qed

lemma pool_doublets_le:
  assumes ok: "helpers_ok X" and r: "pool_doublets X st vs = Inr (b, st')"
  shows "live_edges st' \<le> live_edges st"
  using pool_doublets_count[OF ok r] by (cases b) auto

lemma pool_mesh_operations_count_aux:
  assumes "pool_mesh_operations X st = Some r"
  shows "helpers_ok X \<longrightarrow> (\<forall>st'. r = Inr st' \<longrightarrow> live_edges st' \<le> live_edges st)"
proof (rule pool_mesh_operations.raw_induct
    [where P = "\<lambda>X st r. helpers_ok X \<longrightarrow> (\<forall>st'. r = Inr st' \<longrightarrow> live_edges st' \<le> live_edges st)", OF _ assms])
  fix pmo :: "('a, 'b, 'c) helpers \<Rightarrow> 'a pool_state \<Rightarrow> (error + 'a pool_state) option"
  fix X :: "('a, 'b, 'c) helpers" and st :: "'a pool_state" and r
  assume IH: "\<And>X st r. pmo X st = Some r \<Longrightarrow>
                 helpers_ok X \<longrightarrow> (\<forall>st'. r = Inr st' \<longrightarrow> live_edges st' \<le> live_edges st)"
    and eq: "(case pool_doublets X st None of Inl e \<Rightarrow> Some (Inl e)
              | Inr r \<Rightarrow> if fst r then pmo X (snd r) else Some (Inr (snd r))) = Some r"
  show "helpers_ok X \<longrightarrow> (\<forall>st'. r = Inr st' \<longrightarrow> live_edges st' \<le> live_edges st)"
  proof (intro impI allI)
    fix st' assume ok: "helpers_ok X" and r: "r = Inr st'"
    from eq r obtain p where p: "pool_doublets X st None = Inr p"
      and c: "(if fst p then pmo X (snd p) else Some (Inr (snd p))) = Some (Inr st')"
      by (auto split: sum.splits)
    have le: "live_edges (snd p) \<le> live_edges st"
      using pool_doublets_le[OF ok, of st None "fst p" "snd p"] p by simp
    show "live_edges st' \<le> live_edges st"
    proof (cases "fst p")
      case True
      then have "pmo X (snd p) = Some (Inr st')" using c by simp
      from IH[OF this] ok have "live_edges st' \<le> live_edges (snd p)" by simp
      then show ?thesis using le by simp
    next
      case False
      then show ?thesis using c le by simp
    qed
  qed
qed

lemma pool_mesh_operations_count:
  "helpers_ok X \<Longrightarrow> pool_mesh_operations X st = Some (Inr st') \<Longrightarrow> live_edges st' \<le> live_edges st"
  using pool_mesh_operations_count_aux by blast


text \<open>The first loop of the collapse: every edge at \<open>v\<close> is removed or moved to \<open>u\<close>.\<close>

lemma py_set_other:
  "py_set xs e p = Inr ys \<Longrightarrow> 0 \<le> e \<Longrightarrow> 0 \<le> e2 \<Longrightarrow> e2 \<noteq> e \<Longrightarrow> py_get ys e2 = py_get xs e2"
  by (auto simp: py_set_def py_get_def np_idx_def bindE_eq_Inr split: if_splits)

lemma reconnect_edge_count:
  "reconnect_edge m u v e = Inr m' \<Longrightarrow> edges_count m' = edges_count m"
  by (auto simp: reconnect_edge_def bindE_eq_Inr split: if_splits)

lemma reconnect_edge_edges:
  "reconnect_edge m u v e = Inr m' \<Longrightarrow> \<exists>p. py_set (edges m) e p = Inr (edges m')"
  unfolding reconnect_edge_def
  apply (auto simp: bindE_eq_Inr split: if_splits)
    apply blast+
  done

lemma reconnect_edge_touches:
  assumes "reconnect_edge m u v e = Inr m'" and "0 \<le> e" and "0 \<le> e2" and "e2 \<noteq> e"
  shows "touches dv (edges m') e2 = touches dv (edges m) e2"
proof -
  from reconnect_edge_edges[OF assms(1)] obtain p where "py_set (edges m) e p = Inr (edges m')" ..
  from py_set_other[OF this assms(2,3,4)] show ?thesis by (simp add: touches_def)
qed

lemma classify_edge_touch:
  assumes c: "classify_edge X u v dv c e = Inr c'"
    and t: "touches dv (edges (ps_mesh (cs_state c))) e"
  shows "remove_edge X (cs_state c) e = Inr (cs_state c') \<and> e_to_collapse c' = e_to_collapse c @ [e]"
proof -
  from t obtain r where r: "py_get (edges (ps_mesh (cs_state c))) e = Inr r"
    and d: "fst r \<in> set dv \<or> snd r \<in> set dv"
    by (auto simp: touches_def split: sum.splits)
  from d have "(if fst r = v then snd r else fst r) \<in> set dv \<or> (if fst r = v then v else snd r) \<in> set dv"
    by auto
  with c r obtain found st' where "remove_edge X (cs_state c) e = Inr st'"
    and "c' = (case found of
                  None \<Rightarrow> c\<lparr>cs_state := st', e_to_collapse := e_to_collapse c @ [e]\<rparr>
                | Some key \<Rightarrow>
                    c\<lparr>cs_state := st', e_to_collapse := e_to_collapse c @ [e],
                      new_features_combination_dict :=
                        dict_append (new_features_combination_dict c) key e,
                      collapsed_e_to_orig_e_dict :=
                        dict_set (collapsed_e_to_orig_e_dict c) e key\<rparr>)"
    by (auto simp: classify_edge_def Let_def bindE_eq_Inr)
  then show ?thesis by (cases found) auto
qed

lemma classify_edge_no_touch:
  assumes c: "classify_edge X u v dv c e = Inr c'"
    and t: "\<not> touches dv (edges (ps_mesh (cs_state c))) e"
  shows "\<exists>m'. reconnect_edge (ps_mesh (cs_state c)) u v e = Inr m' \<and>
           cs_state c' = (cs_state c)\<lparr>ps_mesh := m'\<rparr> \<and> e_to_collapse c' = e_to_collapse c"
proof -
  from c obtain r where r: "py_get (edges (ps_mesh (cs_state c))) e = Inr r"
    by (auto simp: classify_edge_def bindE_eq_Inr)
  with t have d: "\<not> (fst r \<in> set dv \<or> snd r \<in> set dv)"
    by (simp add: touches_def)
  then have "\<not> ((if fst r = v then snd r else fst r) \<in> set dv \<or> (if fst r = v then v else snd r) \<in> set dv)"
    by auto
  with c r show ?thesis
    by (auto simp: classify_edge_def Let_def bindE_eq_Inr)
qed

definition live_and_removed :: "'g collapse_state \<Rightarrow> int" where
  "live_and_removed c = edges_count (ps_mesh (cs_state c)) + int (length (e_to_collapse c))"

lemma classify_edge_sum:
  assumes ok: "helpers_ok X" and c: "classify_edge X u v dv c e = Inr c'"
  shows "live_and_removed c' = live_and_removed c"
proof (cases "touches dv (edges (ps_mesh (cs_state c))) e")
  case True
  from classify_edge_touch[OF c True] remove_edge_count[OF ok, of "cs_state c" e "cs_state c'"]
  show ?thesis by (simp add: live_and_removed_def)
next
  case False
  from classify_edge_no_touch[OF c False] reconnect_edge_count
  show ?thesis by (fastforce simp: live_and_removed_def)
qed

lemma classify_edge_grows:
  assumes c: "classify_edge X u v dv c e = Inr c'"
  shows "- int (length (e_to_collapse c')) \<le> - int (length (e_to_collapse c))"
proof (cases "touches dv (edges (ps_mesh (cs_state c))) e")
  case True
  from classify_edge_touch[OF c True] show ?thesis by simp
next
  case False
  from classify_edge_no_touch[OF c False] show ?thesis by auto
qed

lemma loopE_measure_le:
  assumes "\<And>s x s'. f s x = Inr s' \<Longrightarrow> c s' \<le> (c s :: int)"
  shows "loopE f xs s = Inr s' \<Longrightarrow> c s' \<le> c s"
proof (induction xs arbitrary: s)
  case Nil
  then show ?case by simp
next
  case (Cons x xs)
  from Cons.prems obtain s1 where s1: "f s x = Inr s1" "loopE f xs s1 = Inr s'"
    by (auto simp: bindE_eq_Inr)
  from Cons.IH[OF s1(2)] assms[OF s1(1)] show ?case by simp
qed

lemma classify_loop_progress:
  assumes "loopE (classify_edge X u v dv) xs c = Inr c'" and "distinct xs"
    and "list_all (\<lambda>e. 0 \<le> e) xs"
    and "list_ex (touches dv (edges (ps_mesh (cs_state c)))) xs"
  shows "length (e_to_collapse c) < length (e_to_collapse c')"
  using assms
proof (induction xs arbitrary: c)
  case Nil
  then show ?case by simp
next
  case (Cons x xs)
  from Cons.prems(1) obtain c1 where c1: "classify_edge X u v dv c x = Inr c1"
    and l: "loopE (classify_edge X u v dv) xs c1 = Inr c'"
    by (auto simp: bindE_eq_Inr)
  have grow: "length (e_to_collapse c1) \<le> length (e_to_collapse c')"
    using loopE_measure_le[of "classify_edge X u v dv" "\<lambda>c. - int (length (e_to_collapse c))", OF _ l]
      classify_edge_grows[of X u v dv] by simp
  show ?case
  proof (cases "touches dv (edges (ps_mesh (cs_state c))) x")
    case True
    from classify_edge_touch[OF c1 True] grow show ?thesis by simp
  next
    case False
    from classify_edge_no_touch[OF c1 False] obtain m'
      where m': "reconnect_edge (ps_mesh (cs_state c)) u v x = Inr m'"
      and s: "cs_state c1 = (cs_state c)\<lparr>ps_mesh := m'\<rparr>" and e: "e_to_collapse c1 = e_to_collapse c"
      by blast
    from Cons.prems(4) False obtain y where y: "y \<in> set xs"
      and ty: "touches dv (edges (ps_mesh (cs_state c))) y"
      by (auto simp: list_ex_iff)
    have "y \<noteq> x" "0 \<le> x" "0 \<le> y"
      using y Cons.prems(2,3) by (auto simp: list_all_iff)
    with reconnect_edge_touches[OF m', of y dv] ty s
    have "touches dv (edges (ps_mesh (cs_state c1))) y" by simp
    with y have "list_ex (touches dv (edges (ps_mesh (cs_state c1)))) xs"
      by (auto simp: list_ex_iff)
    from Cons.IH[OF l _ _ this] Cons.prems(2,3) e show ?thesis by simp
  qed
qed

text \<open>The two repair loops change rows of \<open>gemm_edges\<close> only.\<close>

lemma fix_reconnected_edge_count:
  "fix_reconnected_edge old_mesh to_collapse c2o acc edge = Inr acc' \<Longrightarrow>
     edges_count (fst acc') = edges_count (fst acc)"
  by (auto simp: fix_reconnected_edge_def bindE_eq_Inr split: if_splits)

lemma fix_reconnected_count:
  assumes "fix_reconnected old_mesh to_collapse c2o acc e = Inr acc'"
  shows "edges_count (fst acc') = edges_count (fst acc)"
proof -
  from assms obtain hood
    where "loopE (fix_reconnected_edge old_mesh to_collapse c2o) (e # hood) acc = Inr acc'"
    by (auto simp: fix_reconnected_def bindE_eq_Inr)
  from loopE_measure_eq[of "fix_reconnected_edge old_mesh to_collapse c2o" "\<lambda>a. edges_count (fst a)", OF _ this]
    fix_reconnected_edge_count
  show ?thesis by blast
qed

lemma fix_rotated_count:
  "fix_rotated old_mesh c2o acc p = Inr acc' \<Longrightarrow> edges_count (fst acc') = edges_count (fst acc)"
  by (auto simp: fix_rotated_def Let_def bindE_eq_Inr)


lemma classify_loop_sum:
  assumes ok: "helpers_ok X" and l: "loopE (classify_edge X u v dv) xs c = Inr c'"
  shows "live_and_removed c' = live_and_removed c"
  using loopE_measure_eq[of "classify_edge X u v dv" live_and_removed, OF _ l]
    classify_edge_sum[OF ok] by blast

lemma collapse_other_vertex_v_count:
  assumes ok: "helpers_ok X"
    and r: "collapse_other_vertex_v X st u v e_v dv nfcd = Inr (st', d)"
  shows "live_edges st' \<le> live_edges st \<and> (touches_diag (ps_mesh st) dv e_v \<longrightarrow> live_edges st' < live_edges st)"
proof -
  from r obtain p where p0: "pool_doublets X st (Some [v]) = Inr p"
    and rest0: "(if fst p then Inr (snd p, nfcd)
       else
         let st0 = snd p; old_mesh = ps_mesh st0 in
         bindE (loopE (classify_edge X u v dv) e_v
                  \<lparr>cs_state = st0, e_to_collapse = [], collapsed_e_to_orig_e_dict = [],
                   e_to_reconnect_with_u = [], new_features_combination_dict = nfcd\<rparr>) (\<lambda>c.
         bindE (loopE (fix_reconnected old_mesh (e_to_collapse c) (collapsed_e_to_orig_e_dict c))
                  (e_to_reconnect_with_u c) (ps_mesh (cs_state c), [])) (\<lambda>a2.
         bindE (loopE (fix_rotated old_mesh (collapsed_e_to_orig_e_dict c))
                  (collapsed_e_to_orig_e_dict c) a2) (\<lambda>a3.
         bindE (fix_mesh_hood_order X (fst a3) (snd a3)) (\<lambda>m4.
         bindE (fix_mesh_sides X m4 (snd a3)) (\<lambda>m5.
         bindE (mesh_merge_vertices X m5 u v) (\<lambda>m6.
           Inr ((cs_state c)\<lparr>ps_mesh := m6\<rparr>, new_features_combination_dict c)))))))) = Inr (st', d)"
    unfolding collapse_other_vertex_v_def bindE_eq_Inr by blast
  obtain b0 st0 where p: "p = (b0, st0)" by (cases p)
  note pd = pool_doublets_count[OF ok p0[unfolded p]]
  note rest = rest0[unfolded p fst_conv snd_conv]
  show ?thesis
  proof (cases b0)
    case True
    with rest have "st' = st0" by simp
    with pd True show ?thesis by simp
  next
    case False
    with pd have st0: "st0 = st" by simp
    define c0 :: "'a collapse_state" where
      "c0 = \<lparr>cs_state = st, e_to_collapse = [], collapsed_e_to_orig_e_dict = [],
             e_to_reconnect_with_u = [], new_features_combination_dict = nfcd\<rparr>"
    from rest False st0 obtain c a2 a3 m4 m5 m6
      where l1: "loopE (classify_edge X u v dv) e_v c0 = Inr c"
        and l2: "loopE (fix_reconnected (ps_mesh st) (e_to_collapse c) (collapsed_e_to_orig_e_dict c))
                  (e_to_reconnect_with_u c) (ps_mesh (cs_state c), []) = Inr a2"
        and l3: "loopE (fix_rotated (ps_mesh st) (collapsed_e_to_orig_e_dict c))
                  (collapsed_e_to_orig_e_dict c) a2 = Inr a3"
        and h4: "fix_mesh_hood_order X (fst a3) (snd a3) = Inr m4"
        and h5: "fix_mesh_sides X m4 (snd a3) = Inr m5"
        and h6: "mesh_merge_vertices X m5 u v = Inr m6"
        and res: "st' = (cs_state c)\<lparr>ps_mesh := m6\<rparr>"
      unfolding c0_def by (auto simp: Let_def bindE_eq_Inr)
    have "edges_count (fst a2) = live_edges (cs_state c)"
      using loopE_measure_eq[of "fix_reconnected (ps_mesh st) (e_to_collapse c) (collapsed_e_to_orig_e_dict c)"
          "\<lambda>a. edges_count (fst a)", OF _ l2] fix_reconnected_count by fastforce
    moreover have "edges_count (fst a3) = edges_count (fst a2)"
      using loopE_measure_eq[of "fix_rotated (ps_mesh st) (collapsed_e_to_orig_e_dict c)"
          "\<lambda>a. edges_count (fst a)", OF _ l3] fix_rotated_count by fastforce
    moreover note helpers_okD5[OF ok h4] helpers_okD6[OF ok h5] helpers_okD4[OF ok h6]
    ultimately have a: "live_edges st' = live_edges (cs_state c)" using res by simp
    have b: "live_edges (cs_state c) + int (length (e_to_collapse c)) = live_edges st"
      using classify_loop_sum[OF ok l1] by (simp add: live_and_removed_def c0_def)
    have "touches_diag (ps_mesh st) dv e_v \<Longrightarrow> 0 < int (length (e_to_collapse c))"
      using classify_loop_progress[OF l1] by (simp add: touches_diag_def c0_def)
    with a b show ?thesis by linarith
  qed
qed

lemma union_sources_count:
  "helpers_ok X \<Longrightarrow> union_sources X target m source = Inr m' \<Longrightarrow> edges_count m' = edges_count m"
  by (auto simp: union_sources_def helpers_okD1 split: if_splits)

lemma union_groups_at_once_count:
  assumes ok: "helpers_ok X" and r: "union_groups_at_once X st d = Inr st'"
  shows "live_edges st' = live_edges st"
proof -
  from r obtain m where l: "loopE (\<lambda>m p. loopE (union_sources X (fst p)) (snd p) m) d (ps_mesh st) = Inr m"
    and m: "ps_mesh st' = m"
    by (auto simp: union_groups_at_once_def bindE_eq_Inr)
  have inner: "\<And>m p m'. loopE (union_sources X (fst p)) (snd p) m = Inr m' \<Longrightarrow> edges_count m' = edges_count m"
  proof -
    fix m :: mesh and p :: "int \<times> int list" and m'
    assume i: "loopE (union_sources X (fst p)) (snd p) m = Inr m'"
    from loopE_measure_eq[of "union_sources X (fst p)" edges_count, OF _ i] union_sources_count[OF ok]
    show "edges_count m' = edges_count m" by blast
  qed
  from loopE_measure_eq[of "\<lambda>m p. loopE (union_sources X (fst p)) (snd p) m" edges_count, OF _ l] inner m
  show ?thesis by blast
qed

lemma edge_collapse_count:
  assumes ok: "helpers_ok X" and r: "edge_collapse X st edge_id = Inr (b, st')"
  shows "live_edges st' \<le> live_edges st \<and> (b \<longrightarrow> live_edges st' < live_edges st)"
proof -
  from r obtain h where g0: "get_edge_hood_info X (ps_mesh st) edge_id = Inr h"
    and r1: "(case h of (u, v_e_u, e_u, v, v_e_v, e_v) \<Rightarrow>
      bindE (check_u_v_boundaries X (ps_mesh st) u v_e_u e_u v v_e_v e_v)
       (\<lambda>(correct_config, u, v_e_u, e_u, v, v_e_v, e_v).
       if \<not> correct_config then Inr (False, st)
       else
         bindE (edge_rotations X u e_u v_e_u (ps_mesh st)) (\<lambda>(m1, nfcd, diag_vertices).
           case diag_vertices of
             None \<Rightarrow> Inr (False, st\<lparr>ps_mesh := m1\<rparr>)
           | Some dv \<Rightarrow>
               bindE (py_get (ve m1) v) (\<lambda>e_v.
               bindE (collapse_other_vertex_v X (st\<lparr>ps_mesh := m1\<rparr>) u v e_v dv nfcd) (\<lambda>r.
               bindE (union_groups_at_once X (fst r) (snd r)) (\<lambda>st3.
                 Inr (True, st3))))))) = Inr (b, st')"
    unfolding edge_collapse_def bindE_eq_Inr by blast
  obtain u v_e_u e_u v v_e_v e_v where h: "h = (u, v_e_u, e_u, v, v_e_v, e_v)"
    by (cases h) auto
  note g = g0[unfolded h]
  from r1[unfolded h prod.case] obtain cc
    where c0: "check_u_v_boundaries X (ps_mesh st) u v_e_u e_u v v_e_v e_v = Inr cc"
    and r2: "(case cc of (correct_config, u, v_e_u, e_u, v, v_e_v, e_v) \<Rightarrow>
       if \<not> correct_config then Inr (False, st)
       else
         bindE (edge_rotations X u e_u v_e_u (ps_mesh st)) (\<lambda>(m1, nfcd, diag_vertices).
           case diag_vertices of
             None \<Rightarrow> Inr (False, st\<lparr>ps_mesh := m1\<rparr>)
           | Some dv \<Rightarrow>
               bindE (py_get (ve m1) v) (\<lambda>e_v.
               bindE (collapse_other_vertex_v X (st\<lparr>ps_mesh := m1\<rparr>) u v e_v dv nfcd) (\<lambda>r.
               bindE (union_groups_at_once X (fst r) (snd r)) (\<lambda>st3.
                 Inr (True, st3)))))) = Inr (b, st')"
    unfolding bindE_eq_Inr by blast
  obtain correct_config u' v_e_u' e_u' v' v_e_v' e_v'
    where cc: "cc = (correct_config, u', v_e_u', e_u', v', v_e_v', e_v')"
    by (cases cc) auto
  note c = c0[unfolded cc]
  note rest = r2[unfolded cc prod.case]
  show ?thesis
  proof (cases correct_config)
    case False
    with rest show ?thesis by simp
  next
    case True
    with rest obtain m1 nfcd diag_vertices
      where rot: "edge_rotations X u' e_u' v_e_u' (ps_mesh st) = Inr (m1, nfcd, diag_vertices)"
        and rest2: "(case diag_vertices of
             None \<Rightarrow> Inr (False, st\<lparr>ps_mesh := m1\<rparr>)
           | Some dv \<Rightarrow>
               bindE (py_get (ve m1) v') (\<lambda>e_v.
               bindE (collapse_other_vertex_v X (st\<lparr>ps_mesh := m1\<rparr>) u' v' e_v dv nfcd) (\<lambda>r.
               bindE (union_groups_at_once X (fst r) (snd r)) (\<lambda>st3.
                 Inr (True, st3))))) = Inr (b, st')"
      by (auto simp: bindE_eq_Inr)
    from helpers_okD9[OF ok rot] have m1: "edges_count m1 \<le> live_edges st" by simp
    show ?thesis
    proof (cases diag_vertices)
      case None
      with rest2 m1 show ?thesis by auto
    next
      case (Some dv)
      with rest2 obtain l st2 d
        where l: "py_get (ve m1) v' = Inr l"
          and co: "collapse_other_vertex_v X (st\<lparr>ps_mesh := m1\<rparr>) u' v' l dv nfcd = Inr (st2, d)"
          and un: "union_groups_at_once X st2 d = Inr st'"
        by (auto simp: bindE_eq_Inr)
      have "touches_diag m1 dv l"
        using helpers_okD10[OF ok g] c rot l True Some by simp
      with collapse_other_vertex_v_count[OF ok co] have "live_edges st2 < edges_count m1" by simp
      with union_groups_at_once_count[OF ok un] m1 show ?thesis by simp
    qed
  qed
qed

text \<open>One attempt and the whole loop.\<close>

lemma pool_edge_count:
  assumes ok: "helpers_ok X" and r: "pool_edge X out_target st edge_id = Some (Inr (b, st'))"
  shows "live_edges st' \<le> live_edges st \<and> (b \<longrightarrow> live_edges st' < live_edges st)"
proof -
  from r obtain st1 where 1: "pool_mesh_operations X st = Some (Inr st1)"
    and rest1: "bindO (Some (has_boundaries (ps_mesh st1) edge_id)) (\<lambda>boundary.
       if boundary then Some (Inr (False, st1))
       else
         bindO (Some (edge_config_valid out_target (ps_mesh st1) edge_id)) (\<lambda>valid.
           if valid then
             bindO (Some (edge_collapse X st1 edge_id)) (\<lambda>r.
             bindO (pool_mesh_operations X (snd r)) (\<lambda>st3.
               Some (Inr (fst r, st3))))
           else Some (Inr (False, st1)))) = Some (Inr (b, st'))"
    unfolding pool_edge_def bindO_eq_Some_Inr by blast
  note le1 = pool_mesh_operations_count[OF ok 1]
  from rest1 obtain boundary where "has_boundaries (ps_mesh st1) edge_id = Inr boundary"
    and rest2: "(if boundary then Some (Inr (False, st1))
       else
         bindO (Some (edge_config_valid out_target (ps_mesh st1) edge_id)) (\<lambda>valid.
           if valid then
             bindO (Some (edge_collapse X st1 edge_id)) (\<lambda>r.
             bindO (pool_mesh_operations X (snd r)) (\<lambda>st3.
               Some (Inr (fst r, st3))))
           else Some (Inr (False, st1)))) = Some (Inr (b, st'))"
    unfolding bindO_eq_Some_Inr by auto
  show ?thesis
  proof (cases boundary)
    case True
    with rest2 le1 show ?thesis by auto
  next
    case False
    with rest2 obtain valid where "edge_config_valid out_target (ps_mesh st1) edge_id = Inr valid"
      and rest3: "(if valid then
             bindO (Some (edge_collapse X st1 edge_id)) (\<lambda>r.
             bindO (pool_mesh_operations X (snd r)) (\<lambda>st3.
               Some (Inr (fst r, st3))))
           else Some (Inr (False, st1))) = Some (Inr (b, st'))"
      by (auto simp: bindO_eq_Some_Inr)
    show ?thesis
    proof (cases valid)
      case False
      with rest3 le1 show ?thesis by auto
    next
      case True
      with rest3 obtain p where c: "edge_collapse X st1 edge_id = Inr p"
        and 3: "pool_mesh_operations X (snd p) = Some (Inr st')" and b: "b = fst p"
        by (auto simp: bindO_eq_Some_Inr)
      from edge_collapse_count[OF ok, of st1 edge_id "fst p" "snd p"] c
      have "live_edges (snd p) \<le> live_edges st1 \<and> (b \<longrightarrow> live_edges (snd p) < live_edges st1)"
        using b by simp
      with pool_mesh_operations_count[OF ok 3] le1 show ?thesis by auto
    qed
  qed
qed

lemma pool_loop_count:
  assumes ok: "helpers_ok X"
  shows "snd (pool_loop X out_target queue st) = Some (Inr st') \<Longrightarrow> live_edges st' \<le> live_edges st"
proof (induction queue arbitrary: st)
  case Nil
  show ?case
  proof (cases "out_target < edges_count (ps_mesh st)")
    case True
    then show ?thesis using Nil by (simp add: pool_loop_empty)
  next
    case False
    then show ?thesis using Nil by (simp add: pool_loop_done)
  qed
next
  case (Cons entry q)
  show ?case
  proof (cases "out_target < edges_count (ps_mesh st)")
    case False
    then show ?thesis using Cons.prems by (simp add: pool_loop_done)
  next
    case True
    show ?thesis
    proof (cases "py_get (ps_mask st) (snd entry)")
      case (Inl e)
      then show ?thesis using True Cons.prems by (subst (asm) pool_loop.simps) simp
    next
      case (Inr live)
      show ?thesis
      proof (cases live)
        case False
        then have "pool_loop X out_target (entry # q) st = pool_loop X out_target q st"
          using True Inr by (subst pool_loop.simps) simp
        with Cons.prems Cons.IH show ?thesis by simp
      next
        case L: True
        show ?thesis
        proof (cases "pool_edge X out_target st (snd entry)")
          case None
          then show ?thesis using True Inr L Cons.prems by (subst (asm) pool_loop.simps) simp
        next
          case (Some a)
          show ?thesis
          proof (cases a)
            case (Inl e)
            then show ?thesis using True Inr L Some Cons.prems by (subst (asm) pool_loop.simps) simp
          next
            case R: (Inr r)
            then have "pool_loop X out_target (entry # q) st = pool_loop X out_target q (snd r)"
              using True Inr L Some by (subst pool_loop.simps) simp
            with Cons.prems have "live_edges st' \<le> live_edges (snd r)" using Cons.IH by simp
            moreover have "live_edges (snd r) \<le> live_edges st"
              using pool_edge_count[OF ok, of out_target st "snd entry" "fst r" "snd r"] Some R by simp
            ultimately show ?thesis by simp
          qed
        qed
      qed
    qed
  qed
qed


text \<open>When \<^verbatim>\<open>remove_edge\<close> returns.\<close>

definition valid_index :: "nat \<Rightarrow> int \<Rightarrow> bool" where
  "valid_index n i = (- int n \<le> i \<and> i < int n)"

lemma py_set_valid:
  "valid_index (length xs) i \<Longrightarrow> \<exists>ys. py_set xs i x = Inr ys"
  by (auto simp: valid_index_def py_set_def np_idx_def)

lemma remove_edge_returns:
  assumes "remove_group X st e = Inr sg" and "mesh_remove_edge X (ps_mesh sg) e = Inr mr"
    and "valid_index (length (ps_mask sg)) e" and "valid_index (length (edges mr)) e"
    and "valid_index (length (gemm_edges mr)) e"
  shows "\<exists>st1. remove_edge X st e = Inr st1"
proof -
  from py_set_valid[OF assms(3)] obtain mask1 where 1: "py_set (ps_mask sg) e False = Inr mask1" ..
  from py_set_valid[OF assms(4)] obtain edges3 where 2: "py_set (edges mr) e (-1, -1) = Inr edges3" ..
  from py_set_valid[OF assms(5)] obtain gemm3
    where 3: "py_set (gemm_edges mr) e [-1, -1, -1, -1, -1, -1] = Inr gemm3" ..
  show ?thesis using assms(1,2) 1 2 3 by (simp add: remove_edge_def)
qed


subsection \<open>An instance with a collapse\<close>

text \<open>
  Modelled from the spec: \<^verbatim>\<open>get_edge_hood_info\<close> and \<^verbatim>\<open>check_u_v_boundaries\<close> of
  \<^verbatim>\<open>mesh_rotation_utils\<close> are not among the sources.  The specification (4.3, a and b)
  says that the first gathers the incident edges and vertices of \<open>u\<close> and \<open>v\<close>, and that
  the second rejects a configuration with a boundary.  The model of the second also
  rejects when \<open>v\<close> is not among the neighbours of \<open>u\<close>.
\<close>

definition other_end :: "mesh \<Rightarrow> int \<Rightarrow> int \<Rightarrow> error + int" where
  "other_end m w e = bindE (py_get (edges m) e) (\<lambda>r. Inr (if fst r = w then snd r else fst r))"

definition spec_get_edge_hood_info :: "mesh \<Rightarrow> int
    \<Rightarrow> error + (int \<times> int list \<times> int list \<times> int \<times> int list \<times> int list)" where
  "spec_get_edge_hood_info m e =
     bindE (py_get (edges m) e) (\<lambda>r.
     bindE (py_get (ve m) (fst r)) (\<lambda>e_u.
     bindE (py_get (ve m) (snd r)) (\<lambda>e_v.
     bindE (mapE (other_end m (fst r)) e_u) (\<lambda>v_e_u.
     bindE (mapE (other_end m (snd r)) e_v) (\<lambda>v_e_v.
       Inr (fst r, v_e_u, e_u, snd r, v_e_v, e_v))))))"

definition spec_check_u_v_boundaries :: "mesh \<Rightarrow> int \<Rightarrow> int list \<Rightarrow> int list \<Rightarrow> int \<Rightarrow> int list \<Rightarrow> int list
    \<Rightarrow> error + (bool \<times> int \<times> int list \<times> int list \<times> int \<times> int list \<times> int list)" where
  "spec_check_u_v_boundaries m u v_e_u e_u v v_e_v e_v =
     bindE (mapE (py_get (gemm_edges m)) (e_u @ e_v)) (\<lambda>rows.
       Inr (list_all (\<lambda>row. -1 \<notin> set row) rows \<and> v \<in> set v_e_u, u, v_e_u, e_u, v, v_e_v, e_v))"

text \<open>
  Modelled from the spec: \<^verbatim>\<open>edge_rotations\<close> of \<^verbatim>\<open>mesh_rotation_utils\<close> is not among the
  sources.  The specification (4.3, c) says that it re-links the edges at \<open>u\<close>, returns
  which edges combine into which and the diagonal vertices, and fails when it finds no
  valid diagonal vertices; it gives no algorithm.  The model leaves the re-linking out:
  it returns the mesh as it is and an empty dictionary, takes the neighbours of \<open>u\<close> for
  the diagonal vertices, and fails unless the edge list of each of them is free of
  duplicates and of negative entries and holds an edge that ends in one of them.
\<close>

definition diag_found :: "mesh \<Rightarrow> int list \<Rightarrow> int \<Rightarrow> bool" where
  "diag_found m diag_vertices w =
     (case py_get (ve m) w of Inl _ \<Rightarrow> False | Inr l \<Rightarrow> touches_diag m diag_vertices l)"

definition spec_edge_rotations :: "int \<Rightarrow> int list \<Rightarrow> int list \<Rightarrow> mesh
    \<Rightarrow> error + (mesh \<times> (int \<times> int list) list \<times> int list option)" where
  "spec_edge_rotations u e_u v_e_u m =
     Inr (m, [], if list_all (diag_found m v_e_u) v_e_u then Some v_e_u else None)"

text \<open>
  The instance.  The methods of \<^verbatim>\<open>Mesh\<close> and the two repair functions change none of the
  modelled fields.
\<close>

definition collapse_helpers :: "(group_call list, int list, int) helpers" where
  "collapse_helpers =
     \<lparr>find_doublets = spec_find_doublets,
      clear_doublet_pair = spec_clear_doublet_pair,
      get_edge_hood_info = spec_get_edge_hood_info,
      check_u_v_boundaries = spec_check_u_v_boundaries,
      edge_rotations = spec_edge_rotations,
      fix_mesh_hood_order = (\<lambda>m l. Inr m),
      fix_mesh_sides = (\<lambda>m l. Inr m),
      mesh_remove_edge = (\<lambda>m e. Inr m),
      mesh_merge_vertices = (\<lambda>m u v. Inr m),
      mesh_union_groups = (\<lambda>m s t. Inr m),
      mesh_remove_group = (\<lambda>m i. Inr m),
      mesh_clean = (\<lambda>m mask g. Inr m),
      groups_new = (\<lambda>n. []),
      groups_union = (\<lambda>g s t. Inr (g @ [Union s t])),
      groups_union_groups = (\<lambda>g d. Inr (g @ [Union_groups d])),
      groups_remove_group = (\<lambda>g i. Inr (g @ [Remove_group i])),
      groups_rebuild_features = (\<lambda>g fe mask t. Inl Unmodelled)\<rparr>"

lemma spec_kill_edge_count:
  "spec_kill_edge a e = Inr a' \<Longrightarrow> edges_count (fst a') < edges_count (fst a)"
  by (auto simp: spec_kill_edge_def bindE_eq_Inr)

lemma spec_clear_doublet_pair_count:
  assumes "length pair = 2" and "spec_clear_doublet_pair m live pair = Inr r"
  shows "edges_count (fst (snd (snd r))) < edges_count m"
proof -
  from assms(2) obtain a where l: "loopE spec_kill_edge pair (m, live) = Inr a"
    and r: "fst (snd (snd r)) = fst a"
    by (auto simp: spec_clear_doublet_pair_def bindE_eq_Inr)
  from assms(1) have "pair \<noteq> []" by auto
  from loopE_measure_less[of pair spec_kill_edge "\<lambda>a. edges_count (fst a)", OF _ l this]
    spec_kill_edge_count r
  show ?thesis by fastforce
qed

lemma spec_find_doublets_pairs:
  assumes "spec_find_doublets m vs = Inr r"
  shows "(fst r \<noteq> [] \<longrightarrow> snd r \<noteq> []) \<and> list_all (\<lambda>pair. length pair = 2) (snd r)"
  using assms by (auto simp: spec_find_doublets_def bindE_eq_Inr list_all_iff)

lemma collapse_helpers_diag: "helpers_diag collapse_helpers"
  unfolding helpers_diag_def
proof (intro allI impI)
  fix m e h c m1 nfcd dv l
  assume g: "get_edge_hood_info collapse_helpers m e = Inr h"
    and c: "(case h of (u, v_e_u, e_u, v, v_e_v, e_v) \<Rightarrow>
              check_u_v_boundaries collapse_helpers m u v_e_u e_u v v_e_v e_v) = Inr c"
    and t: "fst c"
    and r: "(case snd c of (u, v_e_u, e_u, v, v_e_v, e_v) \<Rightarrow>
              edge_rotations collapse_helpers u e_u v_e_u m = Inr (m1, nfcd, Some dv) \<and>
              py_get (ve m1) v = Inr l)"
  obtain u v_e_u e_u v v_e_v e_v where h: "h = (u, v_e_u, e_u, v, v_e_v, e_v)" by (cases h) auto
  from c t h have sc: "snd c = (u, v_e_u, e_u, v, v_e_v, e_v)" and v: "v \<in> set v_e_u"
    by (auto simp: collapse_helpers_def spec_check_u_v_boundaries_def bindE_eq_Inr)
  from r sc have rot: "spec_edge_rotations u e_u v_e_u m = Inr (m1, nfcd, Some dv)"
    and l: "py_get (ve m1) v = Inr l"
    by (auto simp: collapse_helpers_def)
  from rot have m1: "m1 = m" and dv: "dv = v_e_u" and all: "list_all (diag_found m v_e_u) v_e_u"
    by (auto simp: spec_edge_rotations_def split: if_splits)
  from all v have "diag_found m v_e_u v" by (simp add: list_all_iff)
  with l m1 dv show "touches_diag m1 dv l" by (simp add: diag_found_def)
qed

lemma collapse_helpers_ok: "helpers_ok collapse_helpers"
  unfolding helpers_ok_def
proof (intro conjI allI impI)
  show "helpers_diag collapse_helpers" by (rule collapse_helpers_diag)
qed (auto simp: collapse_helpers_def spec_edge_rotations_def
       dest: spec_clear_doublet_pair_count spec_find_doublets_pairs)


subsection \<open>The statement\<close>



end
